theory Spec2Isabelle
  imports Main "HOL-Library.Word" "HOL-Library.Multiset"
begin

unbundle bit_operations_syntax

section \<open>Number sets (basic\_filters.c)\<close>

text \<open>
  \<^verbatim>\<open>struct number_set { number_slot_t *vec; unsigned int nslots; bool not; }\<close>.
  The slot array and its length are one list: \<open>nslots\<close> is the length of \<open>vec\<close>.
  A slot is an \<^verbatim>\<open>unsigned int\<close>, 32 bits wide.  Numbers and slot counts are
  \<^verbatim>\<open>unsigned int\<close> values; they are naturals here, since the index arithmetic
  (\<open>i / 32\<close>, \<open>i % 32\<close>, \<open>i / 32 + 1\<close>) cannot wrap on them.
\<close>

type_synonym number_slot_t = "32 word"

definition BITS_PER_SLOT :: nat where
  "BITS_PER_SLOT = 32"

record number_set =
  vec :: "number_slot_t list"
  not_flag :: bool

definition nslots :: "number_set \<Rightarrow> nat" where
  "nslots s = length (vec s)"

definition number_setbit :: "nat \<Rightarrow> number_slot_t list \<Rightarrow> number_slot_t list" where
  "number_setbit i v =
     v[i div BITS_PER_SLOT := (v ! (i div BITS_PER_SLOT)) OR push_bit (i mod BITS_PER_SLOT) 1]"

definition number_isset :: "nat \<Rightarrow> number_slot_t list \<Rightarrow> bool" where
  "number_isset i v =
     ((v ! (i div BITS_PER_SLOT)) AND push_bit (i mod BITS_PER_SLOT) 1 \<noteq> 0)"

definition reallocate_number_set :: "number_set \<Rightarrow> nat \<Rightarrow> number_set" where
  "reallocate_number_set s new_nslots =
     (if new_nslots \<le> nslots s then s
      else s\<lparr>vec := vec s @ replicate (new_nslots - nslots s) 0\<rparr>)"

definition add_number_to_set :: "nat \<Rightarrow> number_set \<Rightarrow> number_set" where
  "add_number_to_set number s =
     (let s' = reallocate_number_set s (number div BITS_PER_SLOT + 1)
      in s'\<lparr>vec := number_setbit number (vec s')\<rparr>)"

text \<open>The \<^verbatim>\<open>&&\<close> of the source does not read the slot when the index is past \<open>nslots\<close>.\<close>

definition is_number_in_set :: "nat \<Rightarrow> number_set \<Rightarrow> bool" where
  "is_number_in_set number s =
     ((if number div BITS_PER_SLOT < nslots s then number_isset number (vec s) else False)
      \<noteq> not_flag s)"

section \<open>Strings and the integer parsers of the environment\<close>

text \<open>
  Modelled from the spec: \<^verbatim>\<open>string_to_uint_ex(str, &end, max, allowed_tail_chars)\<close>,
  \<^verbatim>\<open>string_to_uint_upto(str, max)\<close> and \<^verbatim>\<open>string_to_uint(str)\<close> are integer parsers
  "provided by the environment"; their bodies are not part of the filter core.  The
  grammar gives them a \<open>UINT\<close>: a non-empty run of decimal digits.  The result is the
  value of the digits when it is at most \<open>max\<close> and the character after the digits is
  the end of the string or one of the allowed tail characters, and \<open>-1\<close> otherwise; the
  second component is the rest of the string after the digits (\<^verbatim>\<open>*end\<close>).
\<close>

definition is_digit :: "char \<Rightarrow> bool" where
  "is_digit c = (c \<in> set ''0123456789'')"

definition digit_val :: "char \<Rightarrow> nat" where
  "digit_val c = of_char c - 48"

definition dec_val :: "string \<Rightarrow> nat" where
  "dec_val ds = foldl (\<lambda>acc c. 10 * acc + digit_val c) 0 ds"

definition string_to_uint_ex :: "string \<Rightarrow> nat \<Rightarrow> string \<Rightarrow> int \<times> string" where
  "string_to_uint_ex str max_val accepted_ending =
     (let ds = takeWhile is_digit str; endp = dropWhile is_digit str
      in if ds = [] then (- 1, endp)
         else if max_val < dec_val ds then (- 1, endp)
         else if endp = [] then (int (dec_val ds), endp)
         else if hd endp \<in> set accepted_ending then (int (dec_val ds), endp)
         else (- 1, endp))"

definition string_to_uint_upto :: "string \<Rightarrow> nat \<Rightarrow> int" where
  "string_to_uint_upto str max_val = fst (string_to_uint_ex str max_val [])"

definition INT_MAX :: nat where
  "INT_MAX = 2147483647"

definition string_to_uint :: "string \<Rightarrow> int" where
  "string_to_uint str = string_to_uint_upto str INT_MAX"

text \<open>
  \<^verbatim>\<open>strtok_r\<close> called until it returns null: the maximal non-empty runs of characters
  that are not delimiters, in order.  \<open>cur\<close> is the token being read.
\<close>

fun strtok_acc :: "string \<Rightarrow> string \<Rightarrow> string \<Rightarrow> string list" where
  "strtok_acc delim [] cur = (if cur = [] then [] else [cur])"
| "strtok_acc delim (c # cs) cur =
     (if c \<in> set delim
      then (if cur = [] then strtok_acc delim cs [] else cur # strtok_acc delim cs [])
      else strtok_acc delim cs (cur @ [c]))"

definition strtok_r :: "string \<Rightarrow> string \<Rightarrow> string list" where
  "strtok_r str delim = strtok_acc delim str []"

text \<open>\<^verbatim>\<open>STR_STRIP_PREFIX(str, prefix) != str\<close>: the rest after the prefix, when it is one.\<close>

definition STR_STRIP_PREFIX :: "string \<Rightarrow> string \<Rightarrow> string option" where
  "STR_STRIP_PREFIX str pfx =
     (if take (length pfx) str = pfx then Some (drop (length pfx) str) else None)"

definition tolower :: "char \<Rightarrow> char" where
  "tolower c = (if c \<in> set ''ABCDEFGHIJKLMNOPQRSTUVWXYZ''
                then char_of (of_char c + (32::nat)) else c)"

text \<open>\<^verbatim>\<open>strcasecmp(a, b) == 0\<close> and \<^verbatim>\<open>strncasecmp(a, b, n) == 0\<close>.\<close>

definition strcasecmp_eq :: "string \<Rightarrow> string \<Rightarrow> bool" where
  "strcasecmp_eq a b = (map tolower a = map tolower b)"

definition strncasecmp_eq :: "string \<Rightarrow> string \<Rightarrow> nat \<Rightarrow> bool" where
  "strncasecmp_eq a b n = (map tolower (take n a) = map tolower (take n b))"

section \<open>Syscall sets (basic\_filters.c)\<close>

text \<open>
  The syscall tables are read, not built, by the filter core: \<open>sysent_vec\<close> is a
  parameter, one table per personality.  \<open>SUPPORTED_PERSONALITIES\<close> is the number of
  tables and \<open>nsyscall_vec[p]\<close> the length of table \<open>p\<close>.  The \<open>TRACE_*\<close> class bits
  are parameters too.
\<close>

record sysent =
  sys_name :: "string option"
  sys_flags :: "32 word"

type_synonym sysent_vec = "sysent list list"

record trace_flags =
  TRACE_DESC :: "32 word"
  TRACE_FILE :: "32 word"
  TRACE_MEMORY :: "32 word"
  TRACE_PROCESS :: "32 word"
  TRACE_SIGNAL :: "32 word"
  TRACE_IPC :: "32 word"
  TRACE_NETWORK :: "32 word"
  TRACE_STAT :: "32 word"
  TRACE_LSTAT :: "32 word"
  TRACE_FSTAT :: "32 word"
  TRACE_STAT_LIKE :: "32 word"
  TRACE_STATFS :: "32 word"
  TRACE_FSTATFS :: "32 word"
  TRACE_STATFS_LIKE :: "32 word"

text \<open>
  The regex library: \<open>regcomp\<close> gives \<open>None\<close> when the pattern does not compile, and
  otherwise the matcher of the compiled pattern.  The matcher (\<open>regexec\<close>) gives
  \<open>Some True\<close> on a match, \<open>Some False\<close> for \<open>REG_NOMATCH\<close> and \<open>None\<close> for any
  other return code.
\<close>

type_synonym regcomp_t = "string \<Rightarrow> (string \<Rightarrow> bool option) option"

text \<open>
  A fatal error (\<open>error_msg_and_die\<close>) is the result \<open>None\<close>.  The array of sets of
  the source, one set per personality, is a list.
\<close>

definition parse_syscall_number ::
  "sysent_vec \<Rightarrow> string \<Rightarrow> number_set list \<Rightarrow> bool \<times> number_set list" where
  "parse_syscall_number tabs s sets =
     (let n = string_to_uint s
      in if n < 0 then (False, sets)
         else fold (\<lambda>p (done, st).
                if length (tabs ! p) \<le> nat n then (done, st)
                else (True, st[p := add_number_to_set (nat n) (st ! p)]))
              [0..<length tabs] (False, sets))"

definition regex_step ::
  "(string \<Rightarrow> bool option) \<Rightarrow> sysent_vec \<Rightarrow> nat \<Rightarrow> nat
   \<Rightarrow> (bool \<times> number_set list) option \<Rightarrow> (bool \<times> number_set list) option" where
  "regex_step preg tabs p i acc =
     (case acc of
        None \<Rightarrow> None
      | Some (found, st) \<Rightarrow>
          (case sys_name (tabs ! p ! i) of
             None \<Rightarrow> Some (found, st)
           | Some nm \<Rightarrow>
               (case preg nm of
                  None \<Rightarrow> None
                | Some False \<Rightarrow> Some (found, st)
                | Some True \<Rightarrow> Some (True, st[p := add_number_to_set i (st ! p)]))))"

definition parse_syscall_regex ::
  "regcomp_t \<Rightarrow> sysent_vec \<Rightarrow> string \<Rightarrow> number_set list
   \<Rightarrow> (bool \<times> number_set list) option" where
  "parse_syscall_regex regcomp tabs s sets =
     (case regcomp s of
        None \<Rightarrow> None
      | Some preg \<Rightarrow>
          fold (\<lambda>p. fold (regex_step preg tabs p) [0..<length (tabs ! p)])
            [0..<length tabs] (Some (False, sets)))"

definition syscall_class :: "trace_flags \<Rightarrow> (string \<times> 32 word) list" where
  "syscall_class T =
     [ (''desc'', TRACE_DESC T),
       (''file'', TRACE_FILE T),
       (''memory'', TRACE_MEMORY T),
       (''process'', TRACE_PROCESS T),
       (''signal'', TRACE_SIGNAL T),
       (''ipc'', TRACE_IPC T),
       (''network'', TRACE_NETWORK T),
       (''%desc'', TRACE_DESC T),
       (''%file'', TRACE_FILE T),
       (''%memory'', TRACE_MEMORY T),
       (''%process'', TRACE_PROCESS T),
       (''%signal'', TRACE_SIGNAL T),
       (''%ipc'', TRACE_IPC T),
       (''%network'', TRACE_NETWORK T),
       (''%stat'', TRACE_STAT T),
       (''%lstat'', TRACE_LSTAT T),
       (''%fstat'', TRACE_FSTAT T),
       (''%%stat'', TRACE_STAT_LIKE T),
       (''%statfs'', TRACE_STATFS T),
       (''%fstatfs'', TRACE_FSTATFS T),
       (''%%statfs'', TRACE_STATFS_LIKE T) ]"

fun lookup_class_loop :: "string \<Rightarrow> bool \<Rightarrow> (string \<times> 32 word) list \<Rightarrow> 32 word" where
  "lookup_class_loop s qualify_mode [] = 0"
| "lookup_class_loop s qualify_mode ((nm, v) # rest) =
     (if \<not> qualify_mode \<and> take 1 s \<noteq> ''%'' then lookup_class_loop s qualify_mode rest
      else if s = nm then v
      else lookup_class_loop s qualify_mode rest)"

definition lookup_class :: "trace_flags \<Rightarrow> string \<Rightarrow> bool \<Rightarrow> 32 word" where
  "lookup_class T s qualify_mode = lookup_class_loop s qualify_mode (syscall_class T)"

definition parse_syscall_class ::
  "trace_flags \<Rightarrow> sysent_vec \<Rightarrow> string \<Rightarrow> number_set list \<Rightarrow> bool
   \<Rightarrow> bool \<times> number_set list" where
  "parse_syscall_class T tabs s sets qualify_mode =
     (let n = lookup_class T s qualify_mode
      in if n = 0 then (False, sets)
         else (True,
           fold (\<lambda>p. fold (\<lambda>i st.
                   if sys_name (tabs ! p ! i) = None then st
                   else if sys_flags (tabs ! p ! i) AND n \<noteq> n then st
                   else st[p := add_number_to_set i (st ! p)])
                 [0..<length (tabs ! p)])
             [0..<length tabs] sets))"

definition parse_syscall_name ::
  "sysent_vec \<Rightarrow> string \<Rightarrow> number_set list \<Rightarrow> bool \<times> number_set list" where
  "parse_syscall_name tabs s sets =
     fold (\<lambda>p. fold (\<lambda>i (found, st).
             if sys_name (tabs ! p ! i) \<noteq> Some s then (found, st)
             else (True, st[p := add_number_to_set i (st ! p)]))
           [0..<length (tabs ! p)])
       [0..<length tabs] (False, sets)"

definition parse_syscall ::
  "regcomp_t \<Rightarrow> trace_flags \<Rightarrow> sysent_vec \<Rightarrow> string \<Rightarrow> number_set list \<Rightarrow> bool
   \<Rightarrow> (bool \<times> number_set list) option" where
  "parse_syscall regcomp T tabs token0 sets qualify_mode =
     (let token = dropWhile (\<lambda>c. c = CHR ''?'') token0;
          ignore_fail = (take 1 token0 = ''?'')
      in if token \<noteq> [] \<and> is_digit (hd token) then
           (case parse_syscall_number tabs token sets of
              (r, st) \<Rightarrow> Some (r \<or> ignore_fail, st))
         else if take 1 token = ''/'' then
           (case parse_syscall_regex regcomp tabs (tl token) sets of
              None \<Rightarrow> None
            | Some (r, st) \<Rightarrow> Some (r \<or> ignore_fail, st))
         else
           (case parse_syscall_class T tabs token sets qualify_mode of
              (True, st) \<Rightarrow> Some (True, st)
            | (False, st) \<Rightarrow>
                (case parse_syscall_name tabs token st of
                   (r, st') \<Rightarrow> Some (r \<or> ignore_fail, st'))))"

text \<open>\<^verbatim>\<open>for (p = 0; p < SUPPORTED_PERSONALITIES; ++p) set[p].not = !set[p].not;\<close>\<close>

definition invert_sets :: "nat \<Rightarrow> number_set list \<Rightarrow> number_set list" where
  "invert_sets npers sets =
     fold (\<lambda>p st. st[p := (st ! p)\<lparr>not_flag := \<not> not_flag (st ! p)\<rparr>]) [0..<npers] sets"

text \<open>The loop over the leading \<open>!\<close> characters: the rest of the string and the sets.\<close>

fun strip_inversions :: "nat \<Rightarrow> string \<Rightarrow> number_set list \<Rightarrow> string \<times> number_set list" where
  "strip_inversions npers [] sets = ([], sets)"
| "strip_inversions npers (c # cs) sets =
     (if c = CHR ''!'' then strip_inversions npers cs (invert_sets npers sets)
      else (c # cs, sets))"

text \<open>
  The token loop of \<open>parse_syscall_set\<close>: a token that \<open>parse_syscall\<close> rejects is
  fatal.  After the loop \<open>done\<close> is false only when there was no token.
\<close>

fun parse_syscall_tokens ::
  "regcomp_t \<Rightarrow> trace_flags \<Rightarrow> sysent_vec \<Rightarrow> string list \<Rightarrow> number_set list \<Rightarrow> bool
   \<Rightarrow> number_set list option" where
  "parse_syscall_tokens regcomp T tabs [] sets qualify_mode = Some sets"
| "parse_syscall_tokens regcomp T tabs (token # rest) sets qualify_mode =
     (case parse_syscall regcomp T tabs token sets qualify_mode of
        None \<Rightarrow> None
      | Some (False, st) \<Rightarrow> None
      | Some (True, st) \<Rightarrow> parse_syscall_tokens regcomp T tabs rest st qualify_mode)"

definition parse_syscall_set ::
  "regcomp_t \<Rightarrow> trace_flags \<Rightarrow> sysent_vec \<Rightarrow> string \<Rightarrow> number_set list \<Rightarrow> bool
   \<Rightarrow> number_set list option" where
  "parse_syscall_set regcomp T tabs str sets qualify_mode =
     (case (if qualify_mode then strip_inversions (length tabs) str sets else (str, sets)) of
        (s, st) \<Rightarrow>
          if s = ''none'' then Some st
          else if s = ''all'' then Some (invert_sets (length tabs) st)
          else (case strtok_r s '','' of
                  [] \<Rightarrow> None
                | token # rest \<Rightarrow>
                    parse_syscall_tokens regcomp T tabs (token # rest) st qualify_mode))"

definition parse_syscall_filter ::
  "regcomp_t \<Rightarrow> trace_flags \<Rightarrow> sysent_vec \<Rightarrow> string \<Rightarrow> bool \<Rightarrow> number_set list option" where
  "parse_syscall_filter regcomp T tabs str qualify_mode =
     parse_syscall_set regcomp T tabs str
       (replicate (length tabs) \<lparr>vec = [], not_flag = False\<rparr>) qualify_mode"

section \<open>Generic sets and the fd filter (basic\_filters.c)\<close>

text \<open>
  The token loop of \<open>parse_set\<close>: \<open>func\<close> resolves a token to a number, and a
  negative answer is fatal.
\<close>

fun parse_set_tokens ::
  "(string \<Rightarrow> int) \<Rightarrow> string list \<Rightarrow> number_set \<Rightarrow> number_set option" where
  "parse_set_tokens func [] s = Some s"
| "parse_set_tokens func (token # rest) s =
     (let number = func token
      in if number < 0 then None
         else parse_set_tokens func rest (add_number_to_set (nat number) s))"

fun strip_inversions1 :: "string \<Rightarrow> number_set \<Rightarrow> string \<times> number_set" where
  "strip_inversions1 [] s = ([], s)"
| "strip_inversions1 (c # cs) s =
     (if c = CHR ''!'' then strip_inversions1 cs (s\<lparr>not_flag := \<not> not_flag s\<rparr>)
      else (c # cs, s))"

text \<open>After the loop \<open>number\<close> is still \<open>-1\<close> only when there was no token.\<close>

definition parse_set ::
  "string \<Rightarrow> number_set \<Rightarrow> (string \<Rightarrow> int) \<Rightarrow> bool \<Rightarrow> number_set option" where
  "parse_set str set0 func qualify_mode =
     (case (if qualify_mode then strip_inversions1 str set0 else (str, set0)) of
        (s, st) \<Rightarrow>
          if s = ''none'' then Some st
          else if s = ''all'' then Some (st\<lparr>not_flag := \<not> not_flag st\<rparr>)
          else (case strtok_r s '','' of
                  [] \<Rightarrow> None
                | token # rest \<Rightarrow> parse_set_tokens func (token # rest) st))"

definition parse_fd_filter :: "string \<Rightarrow> bool \<Rightarrow> number_set option" where
  "parse_fd_filter str qualify_mode =
     parse_set str \<lparr>vec = [], not_flag = False\<rparr> string_to_uint qualify_mode"

text \<open>
  The part of \<^verbatim>\<open>struct tcb\<close> that the filter core uses: the semantic tag of the
  syscall entry and the arguments (\<^verbatim>\<open>kernel_ulong_t\<close>, 64 bits), which the fd filter
  reads, and the qualification mask \<open>qual_flg\<close>.  Only the two tags the fd filter
  names are told apart.
\<close>

datatype sen_t = SEN_mq_timedsend | SEN_mq_timedreceive | SEN_other nat

record tcb =
  sen :: sen_t
  u_arg :: "64 word list"
  qual_flg :: "32 word"

text \<open>\<^verbatim>\<open>int fd\<close>: the value of the C \<open>int\<close>.\<close>

definition is_fd_in_set :: "tcb \<Rightarrow> int \<Rightarrow> number_set \<Rightarrow> bool" where
  "is_fd_in_set tcp fd s = (if fd < 0 then not_flag s else is_number_in_set (nat fd) s)"

text \<open>Passing \<^verbatim>\<open>tcp->u_arg[0]\<close> as an \<open>int\<close> keeps its low 32 bits, read as signed.\<close>

definition arg_to_int :: "64 word \<Rightarrow> int" where
  "arg_to_int a = sint (ucast a :: 32 word)"

text \<open>
  \<open>match_fd_common\<close> is the environment's walk over the descriptor arguments of an
  event; it is a parameter that receives the event and the predicate on descriptors.
\<close>

definition run_fd_filter ::
  "(tcb \<Rightarrow> (int \<Rightarrow> bool) \<Rightarrow> bool) \<Rightarrow> tcb \<Rightarrow> number_set \<Rightarrow> bool" where
  "run_fd_filter match_fd_common tcp s =
     (case sen tcp of
        SEN_mq_timedsend \<Rightarrow> is_fd_in_set tcp (arg_to_int (u_arg tcp ! 0)) s
      | SEN_mq_timedreceive \<Rightarrow> is_fd_in_set tcp (arg_to_int (u_arg tcp ! 0)) s
      | SEN_other k \<Rightarrow> match_fd_common tcp (\<lambda>fd. is_fd_in_set tcp fd s))"

section \<open>Injection options and signals (filter\_qualify.c)\<close>

text \<open>
  \<^verbatim>\<open>struct inject_opts\<close>: \<open>first\<close> and \<open>step\<close> are 16 bits wide, \<open>signo\<close> 8 bits, and
  \<open>rval\<close> is the value of a C \<open>int\<close>.  The constants and tables of the environment that
  the parser reads are the fields of \<open>inject_env\<close>.
\<close>

record inject_opts =
  first :: "16 word"
  step :: "16 word"
  rval :: int
  signo :: "8 word"
  init :: bool

record inject_env =
  INJECT_OPTS_RVAL_DEFAULT :: int
  MAX_ERRNO_VALUE :: nat
  ENOSYS :: int
  NSIG_BYTES :: nat
  errnoent :: "string option list"
  signame :: "nat \<Rightarrow> string"

definition sigstr_to_uint :: "(nat \<Rightarrow> string) \<Rightarrow> string \<Rightarrow> int" where
  "sigstr_to_uint sgname s0 =
     (if s0 \<noteq> [] \<and> is_digit (hd s0) then string_to_uint_upto s0 255
      else
        (let s = (if strncasecmp_eq s0 ''SIG'' 3 then drop 3 s0 else s0)
         in case List.find (\<lambda>i. strncasecmp_eq (sgname i) ''SIG'' 3
                                \<and> strcasecmp_eq (drop 3 (sgname i)) s) [0..<256] of
              Some i \<Rightarrow> int i
            | None \<Rightarrow> - 1))"

definition find_errno_by_name :: "string option list \<Rightarrow> string \<Rightarrow> int" where
  "find_errno_by_name tab nm =
     (case List.find (\<lambda>i. case tab ! i of None \<Rightarrow> False | Some e \<Rightarrow> strcasecmp_eq nm e)
             [1..<length tab] of
        Some i \<Rightarrow> int i
      | None \<Rightarrow> - 1)"

text \<open>
  \<open>parse_inject_token\<close> writes into \<open>fopts\<close> as it goes: the result is the return
  value with the options as they stand at the return.
\<close>

definition parse_when :: "string \<Rightarrow> inject_opts \<Rightarrow> bool \<times> inject_opts" where
  "parse_when val fopts =
     (case string_to_uint_ex val 0xffff ''+'' of
        (intval, endp) \<Rightarrow>
          if intval < 1 then (False, fopts)
          else
            (let fopts1 = fopts\<lparr>first := word_of_int intval\<rparr>
             in if endp \<noteq> [] then
                  (let val2 = tl endp
                   in if val2 \<noteq> [] then
                        (let intval2 = string_to_uint_upto val2 0xffff
                         in if intval2 < 1 then (False, fopts1)
                            else (True, fopts1\<lparr>step := word_of_int intval2\<rparr>))
                      else (True, fopts1\<lparr>step := 1\<rparr>))
                else (True, fopts1\<lparr>step := 0\<rparr>)))"

definition parse_error_tok :: "inject_env \<Rightarrow> string \<Rightarrow> inject_opts \<Rightarrow> bool \<times> inject_opts" where
  "parse_error_tok E val fopts =
     (if rval fopts \<noteq> INJECT_OPTS_RVAL_DEFAULT E then (False, fopts)
      else
        (let intval0 = string_to_uint_upto val (MAX_ERRNO_VALUE E);
             intval = (if intval0 < 0 then find_errno_by_name (errnoent E) val else intval0)
         in if intval < 1 then (False, fopts)
            else (True, fopts\<lparr>rval := - intval\<rparr>)))"

definition parse_retval_tok :: "inject_env \<Rightarrow> string \<Rightarrow> inject_opts \<Rightarrow> bool \<times> inject_opts" where
  "parse_retval_tok E val fopts =
     (if rval fopts \<noteq> INJECT_OPTS_RVAL_DEFAULT E then (False, fopts)
      else
        (let intval = string_to_uint val
         in if intval < 0 then (False, fopts)
            else (True, fopts\<lparr>rval := intval\<rparr>)))"

definition parse_signal_tok :: "inject_env \<Rightarrow> string \<Rightarrow> inject_opts \<Rightarrow> bool \<times> inject_opts" where
  "parse_signal_tok E val fopts =
     (let intval = sigstr_to_uint (signame E) val
      in if intval < 1 then (False, fopts)
         else if int (NSIG_BYTES E * 8) < intval then (False, fopts)
         else (True, fopts\<lparr>signo := word_of_int intval\<rparr>))"

definition parse_inject_token ::
  "inject_env \<Rightarrow> string \<Rightarrow> inject_opts \<Rightarrow> bool \<Rightarrow> bool \<times> inject_opts" where
  "parse_inject_token E token fopts fault_tokens_only =
     (case STR_STRIP_PREFIX token ''when='' of
        Some val \<Rightarrow> parse_when val fopts
      | None \<Rightarrow>
     (case STR_STRIP_PREFIX token ''error='' of
        Some val \<Rightarrow> parse_error_tok E val fopts
      | None \<Rightarrow>
     (case (if fault_tokens_only then None else STR_STRIP_PREFIX token ''retval='') of
        Some val \<Rightarrow> parse_retval_tok E val fopts
      | None \<Rightarrow>
     (case (if fault_tokens_only then None else STR_STRIP_PREFIX token ''signal='') of
        Some val \<Rightarrow> parse_signal_tok E val fopts
      | None \<Rightarrow> (False, fopts)))))"

text \<open>
  The token loop of \<open>parse_inject_common_args\<close>: \<open>(False, opts)\<close> when a token is
  rejected (the function then returns at once), \<open>(True, opts)\<close> when the loop completes.
\<close>

fun parse_inject_tokens ::
  "inject_env \<Rightarrow> string list \<Rightarrow> inject_opts \<Rightarrow> bool \<Rightarrow> bool \<times> inject_opts" where
  "parse_inject_tokens E [] opts fault_tokens_only = (True, opts)"
| "parse_inject_tokens E (token # rest) opts fault_tokens_only =
     (case parse_inject_token E token opts fault_tokens_only of
        (False, opts') \<Rightarrow> (False, opts')
      | (True, opts') \<Rightarrow> parse_inject_tokens E rest opts' fault_tokens_only)"

text \<open>
  \<open>parse_inject_common_args\<close> hands \<open>str\<close> to \<open>strtok_r\<close>, with a null save
  pointer: \<open>str\<close> is a string here.  A caller that has a null pointer instead is
  modelled at the call (see \<open>parse_inject_common_qualify_opts\<close>).
\<close>

definition inject_tokens :: "string \<Rightarrow> bool \<Rightarrow> string list" where
  "inject_tokens str qualify_mode = strtok_r str (if qualify_mode then '':'' else '';'')"

definition parse_inject_common_args ::
  "inject_env \<Rightarrow> string \<Rightarrow> inject_opts \<Rightarrow> bool \<Rightarrow> bool \<Rightarrow> inject_opts" where
  "parse_inject_common_args E str opts0 fault_tokens_only qualify_mode =
     (let opts1 = opts0\<lparr>first := 1, step := 1, rval := INJECT_OPTS_RVAL_DEFAULT E,
                        signo := 0, init := False\<rparr>
      in case parse_inject_tokens E (inject_tokens str qualify_mode) opts1 fault_tokens_only of
           (False, opts) \<Rightarrow> opts
         | (True, opts) \<Rightarrow>
             if rval opts = INJECT_OPTS_RVAL_DEFAULT E \<and> signo opts = 0 then
               (if fault_tokens_only then opts\<lparr>rval := - ENOSYS E, init := True\<rparr>
                else opts)
             else opts\<lparr>init := True\<rparr>)"

text \<open>
  The options part of \<open>parse_inject_common_qualify\<close>: the arguments are parsed in
  qualify mode into fresh options, and options that are not initialised are fatal.
  (The action and filter it also registers come from \<open>main_part\<close> alone.)

  The argument string is absent (a null pointer, \<open>None\<close>) when the qualifier has no
  arguments.  Then \<open>buf\<close> is null too, and \<open>parse_inject_common_args\<close> passes it
  to \<open>strtok_r\<close> with a null save pointer: the behaviour is undefined, and this is
  the outcome \<open>Undefined_behaviour\<close>.
\<close>

datatype failure = Fatal_error | Undefined_behaviour

definition parse_inject_common_qualify_opts ::
  "inject_env \<Rightarrow> inject_opts \<Rightarrow> string option \<Rightarrow> bool \<Rightarrow> failure + inject_opts" where
  "parse_inject_common_qualify_opts E fresh args fault_tokens_only =
     (case args of
        None \<Rightarrow> Inl Undefined_behaviour
      | Some buf \<Rightarrow>
          (let opts = parse_inject_common_args E buf fresh fault_tokens_only True
           in if init opts then Inr opts else Inl Fatal_error))"

text \<open>
  \<open>qualify_signals\<close> on the global \<open>signal_set\<close>: the \<open>memset\<close> zeroes the
  \<open>nslots\<close> allocated slots and keeps them.  The arguments only produce a warning.
\<close>

definition qualify_signals ::
  "(nat \<Rightarrow> string) \<Rightarrow> string \<Rightarrow> string option \<Rightarrow> number_set \<Rightarrow> number_set option" where
  "qualify_signals sgname main_part args signal_set =
     parse_set main_part
       (signal_set\<lparr>vec := replicate (nslots signal_set) 0, not_flag := False\<rparr>)
       (sigstr_to_uint sgname) True"

section \<open>Filter actions (filter\_action.c)\<close>

text \<open>
  The table of action types.  The \<open>QUAL_*\<close> bits are constants of the environment
  and are parameters; \<open>apply\<close> is named after the type and is left out.
\<close>

datatype args_parser = parse_null | parse_inject | parse_fault

datatype prefilter_t = is_traced | not_injected

record qual_flags =
  QUAL_TRACE :: "32 word"
  QUAL_INJECT :: "32 word"
  QUAL_READ :: "32 word"
  QUAL_WRITE :: "32 word"
  QUAL_RAW :: "32 word"
  QUAL_ABBREV :: "32 word"
  QUAL_VERBOSE :: "32 word"

record filter_action_type =
  name :: string
  priority :: nat
  qual_flg :: "32 word"
  parse_args :: args_parser
  prefilter :: "prefilter_t option"

definition FILTER_ACTION_TYPE ::
  "string \<Rightarrow> nat \<Rightarrow> 32 word \<Rightarrow> args_parser \<Rightarrow> prefilter_t option \<Rightarrow> filter_action_type" where
  "FILTER_ACTION_TYPE nm prio flag parser pre =
     \<lparr>name = nm, priority = prio, qual_flg = flag, parse_args = parser, prefilter = pre\<rparr>"

definition action_types :: "qual_flags \<Rightarrow> filter_action_type list" where
  "action_types Q =
     [ FILTER_ACTION_TYPE ''trace'' 0 (QUAL_TRACE Q) parse_null None,
       FILTER_ACTION_TYPE ''inject'' 1 (QUAL_INJECT Q) parse_inject (Some not_injected),
       FILTER_ACTION_TYPE ''fault'' 1 (QUAL_INJECT Q) parse_fault (Some not_injected),
       FILTER_ACTION_TYPE ''read'' 2 (QUAL_READ Q) parse_null (Some is_traced),
       FILTER_ACTION_TYPE ''write'' 2 (QUAL_WRITE Q) parse_null (Some is_traced),
       FILTER_ACTION_TYPE ''raw'' 2 (QUAL_RAW Q) parse_null (Some is_traced),
       FILTER_ACTION_TYPE ''abbrev'' 2 (QUAL_ABBREV Q) parse_null (Some is_traced),
       FILTER_ACTION_TYPE ''verbose'' 2 (QUAL_VERBOSE Q) parse_null (Some is_traced) ]"

text \<open>
  \<^verbatim>\<open>struct filter_action\<close>.  The expression, the filter array and the private data
  are handles of other modules; of the filters the count \<open>nfilters\<close> is kept.  The
  \<open>id\<close> of the source is \<open>action_id\<close>, and \<open>type\<close> is \<open>action_type\<close>.
\<close>

record filter_action =
  action_id :: nat
  action_type :: filter_action_type
  nfilters :: nat

text \<open>
  The process-wide state: \<open>nfilter_actions\<close> is the length of \<open>filter_actions\<close>, and
  \<open>variables_buf\<close> is the number of booleans allocated, once it is allocated.
\<close>

record filter_state =
  default_flags :: "32 word"
  filter_actions :: "filter_action list"
  variables_buf :: "nat option"

definition nfilter_actions :: "filter_state \<Rightarrow> nat" where
  "nfilter_actions st = length (filter_actions st)"

definition compare_action_priority :: "filter_action \<Rightarrow> filter_action \<Rightarrow> int" where
  "compare_action_priority a b =
     (let priority_a = priority (action_type a); priority_b = priority (action_type b)
      in if priority_a \<noteq> priority_b then (if priority_a < priority_b then - 1 else 1)
         else (if action_id a > action_id b then - 1 else 1))"

text \<open>
  \<open>add_action\<close>: the new action is the last of the array, and its \<open>id\<close> is its index.
\<close>

definition add_action :: "filter_action_type \<Rightarrow> filter_state \<Rightarrow> filter_state" where
  "add_action ty st =
     (let flags = (if default_flags st AND qual_flg ty \<noteq> 0
                   then default_flags st AND NOT (qual_flg ty)
                   else default_flags st);
          n = nfilter_actions st + 1
      in st\<lparr>default_flags := flags,
            filter_actions := filter_actions st
              @ [\<lparr>action_id = n - 1, action_type = ty, nfilters = 0\<rparr>]\<rparr>)"

definition lookup_filter_action_type :: "qual_flags \<Rightarrow> string \<Rightarrow> filter_action_type option" where
  "lookup_filter_action_type Q str = List.find (\<lambda>t. name t = str) (action_types Q)"

text \<open>
  \<open>find_or_add_action\<close> gives the index of the action in the array, with the state;
  an unknown name is fatal (\<open>None\<close>).
\<close>

definition find_or_add_action ::
  "qual_flags \<Rightarrow> string \<Rightarrow> filter_state \<Rightarrow> (nat \<times> filter_state) option" where
  "find_or_add_action Q nm st =
     (case lookup_filter_action_type Q nm of
        None \<Rightarrow> None
      | Some ty \<Rightarrow>
          if parse_args ty \<noteq> parse_null then Some (nfilter_actions st, add_action ty st)
          else
            (case List.find (\<lambda>i. action_type (filter_actions st ! i) = ty)
                    [0..<nfilter_actions st] of
               Some i \<Rightarrow> Some (i, st)
             | None \<Rightarrow> Some (nfilter_actions st, add_action ty st)))"

text \<open>
  Modelled from the spec: \<open>add_filter_to_array\<close> and \<open>parse_qualify_filter\<close> are not
  in the files of the filter core at hand.  Adding a filter to an action's array raises
  its \<open>nfilters\<close> by one, and the synthetic \<open>trace=all\<close> adds one \<open>syscall\<close> filter to
  the trace action.
\<close>

definition add_filter_to_array :: "nat \<Rightarrow> filter_state \<Rightarrow> filter_state" where
  "add_filter_to_array i st =
     st\<lparr>filter_actions :=
          (filter_actions st)[i := (filter_actions st ! i)
             \<lparr>nfilters := nfilters (filter_actions st ! i) + 1\<rparr>]\<rparr>"

definition inject_path_tracing :: "qual_flags \<Rightarrow> filter_state \<Rightarrow> filter_state option" where
  "inject_path_tracing Q st =
     (case find_or_add_action Q ''trace'' st of
        None \<Rightarrow> None
      | Some (i, st1) \<Rightarrow>
          (let st2 = (if nfilters (filter_actions st1 ! i) = 0
                      then add_filter_to_array i st1 else st1)
           in Some (add_filter_to_array i st2)))"

text \<open>
  \<open>qsort\<close> with a comparator: insertion from the right, an element going before the
  first one it compares less than.  The library leaves the algorithm open; the
  comparator here never answers 0, so the order it asks for admits one arrangement only
  (see the claim on the order of actions).
\<close>

fun qsort_insert :: "('a \<Rightarrow> 'a \<Rightarrow> int) \<Rightarrow> 'a \<Rightarrow> 'a list \<Rightarrow> 'a list" where
  "qsort_insert cmp x [] = [x]"
| "qsort_insert cmp x (y # ys) =
     (if cmp x y < 0 then x # y # ys else y # qsort_insert cmp x ys)"

definition qsort :: "('a \<Rightarrow> 'a \<Rightarrow> int) \<Rightarrow> 'a list \<Rightarrow> 'a list" where
  "qsort cmp xs = foldr (qsort_insert cmp) xs []"

definition filtering_parsing_finish ::
  "qual_flags \<Rightarrow> bool \<Rightarrow> filter_state \<Rightarrow> filter_state option" where
  "filtering_parsing_finish Q tracing_paths st =
     (case (if tracing_paths then inject_path_tracing Q st else Some st) of
        None \<Rightarrow> None
      | Some st1 \<Rightarrow>
          if nfilter_actions st1 = 0 then Some st1
          else
            (let sorted_actions = qsort compare_action_priority (filter_actions st1);
                 maxfilters = fold (\<lambda>a m. if m < nfilters a then nfilters a else m)
                                sorted_actions 0
             in Some (st1\<lparr>filter_actions := sorted_actions,
                           variables_buf := Some maxfilters\<rparr>)))"

text \<open>
  The per-event loop.  The prefilters, the evaluation of an action's filters and
  expression (\<open>run_filters\<close>, \<open>run_expression\<close>) and the apply hooks belong to other
  modules and are parameters: \<open>expression_holds\<close> says whether the expression of an
  action is true of the event, and \<open>apply_action\<close> is the apply hook of the action's
  type on the event and the action's private data.
\<close>

record action_hooks =
  prefilter_holds :: "prefilter_t \<Rightarrow> tcb \<Rightarrow> bool"
  expression_holds :: "filter_action \<Rightarrow> tcb \<Rightarrow> bool"
  apply_action :: "filter_action \<Rightarrow> tcb \<Rightarrow> tcb"

definition run_filter_action :: "action_hooks \<Rightarrow> tcb \<Rightarrow> filter_action \<Rightarrow> tcb" where
  "run_filter_action H tcp action =
     (if (case prefilter (action_type action) of
            None \<Rightarrow> False
          | Some pf \<Rightarrow> \<not> prefilter_holds H pf tcp) then tcp
      else if expression_holds H action tcp then apply_action H action tcp
      else tcp)"

definition filter_syscall :: "action_hooks \<Rightarrow> tcb \<Rightarrow> filter_state \<Rightarrow> tcb" where
  "filter_syscall H tcp st =
     fold (\<lambda>action t. run_filter_action H t action) (filter_actions st)
       (tcp\<lparr>tcb.qual_flg := tcb.qual_flg tcp OR default_flags st\<rparr>)"

section \<open>Notions of the specification\<close>

text \<open>XOR of the inversion flag of a set with a boolean; the bit vector is kept.\<close>

definition xor_not :: "bool \<Rightarrow> number_set \<Rightarrow> number_set" where
  "xor_not b s = s\<lparr>not_flag := (not_flag s \<noteq> b)\<rparr>"

text \<open>
  A \<open>UINT\<close> of the grammar (a non-empty run of digits), and the range of the
  \<open>when=\<close> counters.
\<close>

definition is_uint :: "string \<Rightarrow> bool" where
  "is_uint ds = (ds \<noteq> [] \<and> list_all is_digit ds)"

definition in_when_range :: "nat \<Rightarrow> bool" where
  "in_when_range v = (1 \<le> v \<and> v \<le> 65535)"

text \<open>
  The slots of a set read past the allocated range as zero, and two sets that agree on
  the inversion flag and on every slot read this way.
\<close>

definition slot :: "number_set \<Rightarrow> nat \<Rightarrow> number_slot_t" where
  "slot s i = (if i < nslots s then vec s ! i else 0)"

definition same_set :: "number_set \<Rightarrow> number_set \<Rightarrow> bool" where
  "same_set a b = (not_flag a = not_flag b \<and> slot a = slot b)"

text \<open>
  The order the spec asks of the action list (priority ascending, then id descending),
  and the invariant of registration: the \<open>id\<close> of an action is its index in the array
  as registered.
\<close>

definition goes_before :: "filter_action \<Rightarrow> filter_action \<Rightarrow> bool" where
  "goes_before a b =
     (priority (action_type a) < priority (action_type b)
      \<or> (priority (action_type a) = priority (action_type b) \<and> action_id b < action_id a))"

definition ids_assigned :: "filter_state \<Rightarrow> bool" where
  "ids_assigned st = (map action_id (filter_actions st) = [0..<nfilter_actions st])"

section \<open>Example inputs\<close>

text \<open>
  A small environment on which the properties are exercised: two personalities, the
  class bits in the order of the record, and a regex library that compiles nothing.
\<close>

definition ex_trace_flags :: trace_flags where
  "ex_trace_flags =
     \<lparr>TRACE_DESC = 1, TRACE_FILE = 2, TRACE_MEMORY = 4, TRACE_PROCESS = 8,
      TRACE_SIGNAL = 16, TRACE_IPC = 32, TRACE_NETWORK = 64, TRACE_STAT = 128,
      TRACE_LSTAT = 256, TRACE_FSTAT = 512, TRACE_STAT_LIKE = 1024,
      TRACE_STATFS = 2048, TRACE_FSTATFS = 4096, TRACE_STATFS_LIKE = 8192\<rparr>"

definition ex_sysent_vec :: sysent_vec where
  "ex_sysent_vec =
     [[\<lparr>sys_name = Some ''read'', sys_flags = 1\<rparr>,
       \<lparr>sys_name = Some ''write'', sys_flags = 1\<rparr>,
       \<lparr>sys_name = Some ''open'', sys_flags = 3\<rparr>,
       \<lparr>sys_name = None, sys_flags = 0\<rparr>],
      [\<lparr>sys_name = Some ''open'', sys_flags = 3\<rparr>]]"

definition ex_regcomp :: regcomp_t where
  "ex_regcomp pat = None"

definition ex_sets :: "number_set list" where
  "ex_sets = [\<lparr>vec = [1], not_flag = False\<rparr>, \<lparr>vec = [], not_flag = True\<rparr>]"

text \<open>
  Signal names, an errno table with \<open>ENOSYS\<close> at index 38, and options whose fields
  are all off their defaults.
\<close>

definition ex_signame :: "nat \<Rightarrow> string" where
  "ex_signame i = (if i = 2 then ''SIGINT'' else if i = 9 then ''SIGKILL'' else ''SIG_0'')"

definition ex_inject_env :: inject_env where
  "ex_inject_env =
     \<lparr>INJECT_OPTS_RVAL_DEFAULT = - 4096, MAX_ERRNO_VALUE = 4095, ENOSYS = 38, NSIG_BYTES = 8,
      errnoent = (replicate 38 None)[1 := Some ''EPERM'', 5 := Some ''EIO''] @ [Some ''ENOSYS''],
      signame = ex_signame\<rparr>"

definition ex_inject_opts :: inject_opts where
  "ex_inject_opts = \<lparr>first = 7, step = 7, rval = 7, signo = 7, init = True\<rparr>"

text \<open>Four registered actions, in the order of their registration.\<close>

definition ex_qual_flags :: qual_flags where
  "ex_qual_flags =
     \<lparr>QUAL_TRACE = 1, QUAL_INJECT = 16, QUAL_READ = 512, QUAL_WRITE = 1024,
      QUAL_RAW = 8, QUAL_ABBREV = 2, QUAL_VERBOSE = 4\<rparr>"

definition ex_filter_state :: filter_state where
  "ex_filter_state =
     \<lparr>default_flags = 4,
      filter_actions =
        [\<lparr>action_id = 0,
          action_type = FILTER_ACTION_TYPE ''abbrev'' 2 2 parse_null (Some is_traced),
          nfilters = 1\<rparr>,
         \<lparr>action_id = 1,
          action_type = FILTER_ACTION_TYPE ''trace'' 0 1 parse_null None,
          nfilters = 2\<rparr>,
         \<lparr>action_id = 2,
          action_type = FILTER_ACTION_TYPE ''inject'' 1 16 parse_inject (Some not_injected),
          nfilters = 1\<rparr>,
         \<lparr>action_id = 3,
          action_type = FILTER_ACTION_TYPE ''fault'' 1 16 parse_fault (Some not_injected),
          nfilters = 1\<rparr>],
      variables_buf = None\<rparr>"

text \<open>
  Hooks that make the order of the per-event loop visible in the mask: every action
  applies, and applying one multiplies the mask by ten and adds the action's id.
\<close>

definition ex_action_hooks :: action_hooks where
  "ex_action_hooks =
     \<lparr>prefilter_holds = (\<lambda>pf tcp. True),
      expression_holds = (\<lambda>action tcp. True),
      apply_action = (\<lambda>action tcp. tcp\<lparr>tcb.qual_flg := 10 * tcb.qual_flg tcp + of_nat (action_id action)\<rparr>)\<rparr>"

section \<open>Properties\<close>

lemma and_push_bit_one_neq_zero:
  fixes w :: "32 word"
  assumes "k < 32"
  shows "(w AND push_bit k 1 \<noteq> 0) = bit w k"
proof
  assume "w AND push_bit k 1 \<noteq> 0"
  then obtain n where "bit (w AND push_bit k 1) n"
    using bit_eqI [of "w AND push_bit k 1" 0] by auto
  then show "bit w k"
    by (auto simp: bit_and_iff bit_exp_iff)
next
  assume "bit w k"
  with assms have "bit (w AND push_bit k 1) k"
    by (simp add: bit_and_iff bit_exp_iff)
  then show "w AND push_bit k 1 \<noteq> 0"
    by auto
qed

lemma number_isset_bit:
  "number_isset i v = bit (v ! (i div 32)) (i mod 32)"
  unfolding number_isset_def BITS_PER_SLOT_def
  by (rule and_push_bit_one_neq_zero) simp

text \<open>
  Claim C1.  For every number set \<open>S\<close> and every number \<open>n\<close>, the membership test
  is \<open>(n's slot is allocated and bit n is set in the vector) XOR S.not\<close>; when the slot
  index of \<open>n\<close> is at or past the allocated range, the result is exactly \<open>S.not\<close>.
\<close>

theorem is_number_in_set_spec:
  "is_number_in_set n S =
     ((n div 32 < nslots S \<and> bit (vec S ! (n div 32)) (n mod 32)) \<noteq> not_flag S)
   \<and> (nslots S \<le> n div 32 \<longrightarrow> is_number_in_set n S = not_flag S)"
  by (auto simp: is_number_in_set_def number_isset_bit BITS_PER_SLOT_def)

theorem is_number_in_set_spec_witness:
  "is_number_in_set 33 \<lparr>vec = [0, 2], not_flag = False\<rparr>
   \<and> is_number_in_set 64 \<lparr>vec = [0, 2], not_flag = True\<rparr>
   \<and> \<not> is_number_in_set 64 \<lparr>vec = [0, 2], not_flag = False\<rparr>"
  using is_number_in_set_spec [of 33 "\<lparr>vec = [0, 2], not_flag = False\<rparr>"]
    is_number_in_set_spec [of 64 "\<lparr>vec = [0, 2], not_flag = True\<rparr>"]
    is_number_in_set_spec [of 64 "\<lparr>vec = [0, 2], not_flag = False\<rparr>"]
  by (simp add: nslots_def)

subsection \<open>The default flags\<close>

lemma add_action_default_flags:
  "default_flags (add_action ty st) = default_flags st AND NOT (qual_flg ty)"
proof (cases "default_flags st AND qual_flg ty = 0")
  case True
  have "default_flags st AND NOT (qual_flg ty) = default_flags st"
  proof (rule bit_eqI)
    fix n
    from True have "\<not> bit (default_flags st AND qual_flg ty) n" by simp
    then show "bit (default_flags st AND NOT (qual_flg ty)) n = bit (default_flags st) n"
      by (auto simp: bit_and_iff bit_not_iff dest: bit_imp_possible_bit)
  qed
  with True show ?thesis by (simp add: add_action_def)
next
  case False
  then show ?thesis by (simp add: add_action_def)
qed

lemma fold_add_action_default_flags:
  "default_flags (fold add_action tys st) AND m = 0" if "default_flags st AND m = 0"
  using that
proof (induction tys arbitrary: st)
  case Nil
  then show ?case by simp
next
  case (Cons ty tys)
  have "default_flags (add_action ty st) AND m = (default_flags st AND m) AND NOT (qual_flg ty)"
    by (simp add: add_action_default_flags ac_simps)
  with Cons.prems have "default_flags (add_action ty st) AND m = 0" by simp
  then show ?case using Cons.IH by simp
qed

text \<open>
  Claim C7.  Registering an action of a type clears the bits of the type's qualifier
  flag from \<open>default_flags\<close> and keeps the others; after that the bits stay clear
  through any further registrations, and no registration sets a bit that was clear:
  \<open>default_flags\<close> only shrinks, as a bit set, across \<open>add_action\<close> calls.
\<close>

theorem default_flags_never_readded:
  "default_flags (add_action ty st) = default_flags st AND NOT (qual_flg ty)
   \<and> default_flags (add_action ty st) AND qual_flg ty = 0
   \<and> default_flags (fold add_action tys (add_action ty st)) AND qual_flg ty = 0
   \<and> default_flags (fold add_action tys st) AND NOT (default_flags st) = 0"
proof -
  have a: "default_flags (add_action ty st) AND qual_flg ty = 0"
    by (simp add: add_action_default_flags and.assoc)
  have b: "default_flags st AND NOT (default_flags st) = 0" by simp
  show ?thesis
    using a fold_add_action_default_flags [OF a] fold_add_action_default_flags [OF b]
    by (simp add: add_action_default_flags)
qed

subsection \<open>Syscall sets: inversion commutes with parsing\<close>

lemma fold_update_length:
  "length (fold (\<lambda>p st. st[p := f (st ! p)]) ps xs) = length xs"
  by (induction ps arbitrary: xs) auto

lemma fold_update_nth:
  "i < length xs \<Longrightarrow>
   fold (\<lambda>p st. st[p := f (st ! p)]) [0..<n] xs ! i = (if i < n then f (xs ! i) else xs ! i)"
  by (induction n) (auto simp: nth_list_update less_Suc_eq fold_update_length)

lemma invert_sets_map:
  "length sets = n \<Longrightarrow> invert_sets n sets = map (xor_not True) sets"
  unfolding invert_sets_def
  using fold_update_length [of "\<lambda>s. s\<lparr>not_flag := \<not> not_flag s\<rparr>" "[0..<n]" sets]
    fold_update_nth [of _ sets "\<lambda>s. s\<lparr>not_flag := \<not> not_flag s\<rparr>" n]
  by (intro nth_equalityI) (simp_all add: xor_not_def)

lemma add_number_to_set_xor_not:
  "add_number_to_set n (xor_not b s) = xor_not b (add_number_to_set n s)"
  by (simp add: add_number_to_set_def reallocate_number_set_def nslots_def xor_not_def Let_def)

lemma update_add_xor_not:
  "(map (xor_not b) st)[p := add_number_to_set n (map (xor_not b) st ! p)]
   = map (xor_not b) (st[p := add_number_to_set n (st ! p)])"
proof (cases "p < length st")
  case True
  then show ?thesis by (simp add: map_update add_number_to_set_xor_not)
next
  case False
  then have "length st \<le> p" by simp
  then show ?thesis by (simp add: list_update_beyond)
qed

lemma parse_syscall_number_xor_not:
  "parse_syscall_number tabs s (map (xor_not b) sets)
   = map_prod id (map (xor_not b)) (parse_syscall_number tabs s sets)"
proof -
  have "fold (\<lambda>p (done, st).
                if length (tabs ! p) \<le> k then (done, st)
                else (True, st[p := add_number_to_set k (st ! p)])) ps (d, map (xor_not b) st)
        = map_prod id (map (xor_not b)) (fold (\<lambda>p (done, st).
                if length (tabs ! p) \<le> k then (done, st)
                else (True, st[p := add_number_to_set k (st ! p)])) ps (d, st))"
    for k ps d st
    by (induction ps arbitrary: d st) (simp_all add: update_add_xor_not)
  then show ?thesis by (simp add: parse_syscall_number_def Let_def)
qed


lemma regex_step_xor_not:
  "regex_step preg tabs p i (map_option (map_prod id (map (xor_not b))) acc)
   = map_option (map_prod id (map (xor_not b))) (regex_step preg tabs p i acc)"
  by (auto simp: regex_step_def update_add_xor_not split: option.splits bool.splits)

lemma fold_regex_step_xor_not:
  "fold (regex_step preg tabs p) is (map_option (map_prod id (map (xor_not b))) acc)
   = map_option (map_prod id (map (xor_not b))) (fold (regex_step preg tabs p) is acc)"
  by (induction "is" arbitrary: acc) (simp_all add: regex_step_xor_not)

lemma fold_fold_regex_step_xor_not:
  "fold (\<lambda>p. fold (regex_step preg tabs p) (f p)) ps
     (map_option (map_prod id (map (xor_not b))) acc)
   = map_option (map_prod id (map (xor_not b)))
       (fold (\<lambda>p. fold (regex_step preg tabs p) (f p)) ps acc)"
  by (induction ps arbitrary: acc) (simp_all add: fold_regex_step_xor_not)

lemma parse_syscall_regex_xor_not:
  "parse_syscall_regex rx tabs s (map (xor_not b) sets)
   = map_option (map_prod id (map (xor_not b))) (parse_syscall_regex rx tabs s sets)"
  using fold_fold_regex_step_xor_not [of _ tabs "\<lambda>p. [0..<length (tabs ! p)]" _ b "Some (False, sets)"]
  by (simp add: parse_syscall_regex_def split: option.splits)

lemma parse_syscall_class_xor_not:
  "parse_syscall_class T tabs s (map (xor_not b) sets) qm
   = map_prod id (map (xor_not b)) (parse_syscall_class T tabs s sets qm)"
proof -
  have inner: "fold (\<lambda>i st.
                   if sys_name (tabs ! p ! i) = None then st
                   else if sys_flags (tabs ! p ! i) AND n \<noteq> n then st
                   else st[p := add_number_to_set i (st ! p)]) is (map (xor_not b) st)
        = map (xor_not b) (fold (\<lambda>i st.
                   if sys_name (tabs ! p ! i) = None then st
                   else if sys_flags (tabs ! p ! i) AND n \<noteq> n then st
                   else st[p := add_number_to_set i (st ! p)]) is st)"
    for n p "is" st
    by (induction "is" arbitrary: st) (simp_all add: update_add_xor_not)
  have outer: "fold (\<lambda>p. fold (\<lambda>i st.
                   if sys_name (tabs ! p ! i) = None then st
                   else if sys_flags (tabs ! p ! i) AND n \<noteq> n then st
                   else st[p := add_number_to_set i (st ! p)]) (f p)) ps (map (xor_not b) st)
        = map (xor_not b) (fold (\<lambda>p. fold (\<lambda>i st.
                   if sys_name (tabs ! p ! i) = None then st
                   else if sys_flags (tabs ! p ! i) AND n \<noteq> n then st
                   else st[p := add_number_to_set i (st ! p)]) (f p)) ps st)"
    for n f ps st
    by (induction ps arbitrary: st) (simp_all add: inner)
  show ?thesis
    by (simp add: parse_syscall_class_def Let_def outer)
qed

lemma parse_syscall_name_xor_not:
  "parse_syscall_name tabs s (map (xor_not b) sets)
   = map_prod id (map (xor_not b)) (parse_syscall_name tabs s sets)"
proof -
  have inner: "fold (\<lambda>i (found, st).
             if sys_name (tabs ! p ! i) \<noteq> Some s then (found, st)
             else (True, st[p := add_number_to_set i (st ! p)])) is
               (map_prod id (map (xor_not b)) acc)
        = map_prod id (map (xor_not b)) (fold (\<lambda>i (found, st).
             if sys_name (tabs ! p ! i) \<noteq> Some s then (found, st)
             else (True, st[p := add_number_to_set i (st ! p)])) is acc)"
    for p "is" acc
    by (induction "is" arbitrary: acc) (auto simp: update_add_xor_not split: prod.splits)
  have outer: "fold (\<lambda>p. fold (\<lambda>i (found, st).
             if sys_name (tabs ! p ! i) \<noteq> Some s then (found, st)
             else (True, st[p := add_number_to_set i (st ! p)])) (f p)) ps
               (map_prod id (map (xor_not b)) acc)
        = map_prod id (map (xor_not b)) (fold (\<lambda>p. fold (\<lambda>i (found, st).
             if sys_name (tabs ! p ! i) \<noteq> Some s then (found, st)
             else (True, st[p := add_number_to_set i (st ! p)])) (f p)) ps acc)"
    for f ps acc
    by (induction ps arbitrary: acc) (simp_all add: inner)
  show ?thesis
    using outer [of "\<lambda>p. [0..<length (tabs ! p)]" "[0..<length tabs]" "(False, sets)"]
    by (simp add: parse_syscall_name_def)
qed

lemma parse_syscall_xor_not:
  "parse_syscall rx T tabs token (map (xor_not b) sets) qm
   = map_option (map_prod id (map (xor_not b))) (parse_syscall rx T tabs token sets qm)"
  by (auto simp: parse_syscall_def Let_def parse_syscall_number_xor_not
      parse_syscall_regex_xor_not parse_syscall_class_xor_not parse_syscall_name_xor_not
      split: prod.splits option.splits bool.splits)

lemma parse_syscall_tokens_xor_not:
  "parse_syscall_tokens rx T tabs tokens (map (xor_not b) sets) qm
   = map_option (map (xor_not b)) (parse_syscall_tokens rx T tabs tokens sets qm)"
  by (induction tokens arbitrary: sets)
     (auto simp: parse_syscall_xor_not split: option.splits bool.splits)


lemma xor_not_False: "xor_not False s = s"
  by (simp add: xor_not_def)

lemma xor_not_xor_not: "xor_not a (xor_not b s) = xor_not (a \<noteq> b) s"
  by (cases a; cases b; cases "not_flag s") (simp_all add: xor_not_def)

lemma length_invert_sets: "length (invert_sets n sets) = length sets"
  unfolding invert_sets_def
  using fold_update_length [of "\<lambda>s. s\<lparr>not_flag := \<not> not_flag s\<rparr>" "[0..<n]" sets]
  by simp

lemma length_strip_inversions:
  "length (snd (strip_inversions n str sets)) = length sets"
  by (induction str arbitrary: sets) (simp_all add: length_invert_sets)

lemma invert_sets_xor_not:
  "length sets = n \<Longrightarrow>
   invert_sets n (map (xor_not b) sets) = map (xor_not b) (invert_sets n sets)"
  by (auto simp: invert_sets_map xor_not_xor_not)

lemma strip_inversions_xor_not:
  "length sets = n \<Longrightarrow>
   strip_inversions n str (map (xor_not b) sets)
   = map_prod id (map (xor_not b)) (strip_inversions n str sets)"
  by (induction str arbitrary: sets)
     (simp_all add: invert_sets_xor_not length_invert_sets)

lemma strip_inversions_replicate:
  "length sets = n \<Longrightarrow>
   strip_inversions n (replicate k CHR ''!'' @ P) sets
   = strip_inversions n P (map (xor_not (odd k)) sets)"
proof (induction k arbitrary: sets)
  case 0
  then show ?case by (simp add: xor_not_False)
next
  case (Suc k)
  have "strip_inversions n (replicate (Suc k) CHR ''!'' @ P) sets
        = strip_inversions n (replicate k CHR ''!'' @ P) (invert_sets n sets)"
    by simp
  also have "\<dots> = strip_inversions n P (map (xor_not (odd k)) (invert_sets n sets))"
    using Suc.prems by (intro Suc.IH) (simp add: length_invert_sets)
  also have "map (xor_not (odd k)) (invert_sets n sets) = map (xor_not (odd (Suc k))) sets"
    using Suc.prems by (simp add: invert_sets_map xor_not_xor_not)
  finally show ?case .
qed

lemma parse_syscall_set_xor_not:
  assumes "length sets = length tabs"
  shows "parse_syscall_set rx T tabs str (map (xor_not b) sets) True
         = map_option (map (xor_not b)) (parse_syscall_set rx T tabs str sets True)"
proof -
  obtain s st where r: "strip_inversions (length tabs) str sets = (s, st)"
    by (cases "strip_inversions (length tabs) str sets")
  then have r': "strip_inversions (length tabs) str (map (xor_not b) sets)
                 = (s, map (xor_not b) st)"
    using assms by (simp add: strip_inversions_xor_not)
  have len: "length st = length tabs"
    using length_strip_inversions [of "length tabs" str sets] r assms by simp
  show ?thesis
    using len
    by (simp add: parse_syscall_set_def r r' invert_sets_xor_not
        parse_syscall_tokens_xor_not split: list.splits)
qed

lemma parse_syscall_set_replicate:
  assumes "length sets = length tabs"
  shows "parse_syscall_set rx T tabs (replicate k CHR ''!'' @ P) sets True
         = parse_syscall_set rx T tabs P (map (xor_not (odd k)) sets) True"
  using assms by (simp add: parse_syscall_set_def strip_inversions_replicate)

lemma not_flag_add_number_to_set: "not_flag (add_number_to_set n s) = not_flag s"
  by (simp add: add_number_to_set_def reallocate_number_set_def Let_def)

lemma map_not_flag_update:
  "map not_flag (st[p := add_number_to_set n (st ! p)]) = map not_flag st"
  by (cases "p < length st")
     (simp_all add: map_update not_flag_add_number_to_set list_update_beyond
        list_update_same_conv)

lemma parse_syscall_number_not_flag:
  "map not_flag (snd (parse_syscall_number tabs s sets)) = map not_flag sets"
proof -
  have "map not_flag (snd (fold (\<lambda>p (done, st).
                if length (tabs ! p) \<le> k then (done, st)
                else (True, st[p := add_number_to_set k (st ! p)])) ps acc))
        = map not_flag (snd acc)"
    for k ps acc
    by (induction ps arbitrary: acc) (auto simp: map_not_flag_update split: prod.splits)
  then show ?thesis by (simp add: parse_syscall_number_def Let_def)
qed

lemma regex_step_not_flag:
  "regex_step preg tabs p i acc = Some r \<Longrightarrow>
   \<exists>a. acc = Some a \<and> map not_flag (snd r) = map not_flag (snd a)"
  by (auto simp: regex_step_def map_not_flag_update split: option.splits bool.splits)

lemma fold_regex_step_not_flag:
  "fold (regex_step preg tabs p) is acc = Some r \<Longrightarrow>
   \<exists>a. acc = Some a \<and> map not_flag (snd r) = map not_flag (snd a)"
proof (induction "is" arbitrary: acc)
  case Nil
  then show ?case by simp
next
  case (Cons i "is")
  from Cons.IH [of "regex_step preg tabs p i acc"] Cons.prems
  obtain a' where "regex_step preg tabs p i acc = Some a'"
    and "map not_flag (snd r) = map not_flag (snd a')" by auto
  then show ?case using regex_step_not_flag [of preg tabs p i acc a'] by auto
qed

lemma fold_fold_regex_step_not_flag:
  "fold (\<lambda>p. fold (regex_step preg tabs p) (f p)) ps acc = Some r \<Longrightarrow>
   \<exists>a. acc = Some a \<and> map not_flag (snd r) = map not_flag (snd a)"
proof (induction ps arbitrary: acc)
  case Nil
  then show ?case by simp
next
  case (Cons p ps)
  from Cons.IH [of "fold (regex_step preg tabs p) (f p) acc"] Cons.prems
  obtain a' where "fold (regex_step preg tabs p) (f p) acc = Some a'"
    and "map not_flag (snd r) = map not_flag (snd a')" by auto
  then show ?case using fold_regex_step_not_flag [of preg tabs p "f p" acc a'] by auto
qed

lemma parse_syscall_regex_not_flag:
  "parse_syscall_regex rx tabs s sets = Some r \<Longrightarrow> map not_flag (snd r) = map not_flag sets"
  using fold_fold_regex_step_not_flag [of _ tabs "\<lambda>p. [0..<length (tabs ! p)]" _ "Some (False, sets)" r]
  by (auto simp: parse_syscall_regex_def split: option.splits)

lemma parse_syscall_class_not_flag:
  "map not_flag (snd (parse_syscall_class T tabs s sets qm)) = map not_flag sets"
proof -
  have inner: "map not_flag (fold (\<lambda>i st.
                   if sys_name (tabs ! p ! i) = None then st
                   else if sys_flags (tabs ! p ! i) AND n \<noteq> n then st
                   else st[p := add_number_to_set i (st ! p)]) is st) = map not_flag st"
    for n p "is" st
    by (induction "is" arbitrary: st) (simp_all add: map_not_flag_update)
  have outer: "map not_flag (fold (\<lambda>p. fold (\<lambda>i st.
                   if sys_name (tabs ! p ! i) = None then st
                   else if sys_flags (tabs ! p ! i) AND n \<noteq> n then st
                   else st[p := add_number_to_set i (st ! p)]) (f p)) ps st) = map not_flag st"
    for n f ps st
    by (induction ps arbitrary: st) (simp_all add: inner)
  show ?thesis
    by (simp add: parse_syscall_class_def Let_def outer)
qed

lemma parse_syscall_name_not_flag:
  "map not_flag (snd (parse_syscall_name tabs s sets)) = map not_flag sets"
proof -
  have inner: "map not_flag (snd (fold (\<lambda>i (found, st).
             if sys_name (tabs ! p ! i) \<noteq> Some s then (found, st)
             else (True, st[p := add_number_to_set i (st ! p)])) is acc))
        = map not_flag (snd acc)"
    for p "is" acc
    by (induction "is" arbitrary: acc) (auto simp: map_not_flag_update split: prod.splits)
  have outer: "map not_flag (snd (fold (\<lambda>p. fold (\<lambda>i (found, st).
             if sys_name (tabs ! p ! i) \<noteq> Some s then (found, st)
             else (True, st[p := add_number_to_set i (st ! p)])) (f p)) ps acc))
        = map not_flag (snd acc)"
    for f ps acc
    by (induction ps arbitrary: acc) (simp_all add: inner)
  show ?thesis
    using outer [of "\<lambda>p. [0..<length (tabs ! p)]" "[0..<length tabs]" "(False, sets)"]
    by (simp add: parse_syscall_name_def)
qed

lemma parse_syscall_not_flag:
  assumes "parse_syscall rx T tabs token sets qm = Some r"
  shows "map not_flag (snd r) = map not_flag sets"
proof -
  define tok where "tok = dropWhile (\<lambda>c. c = CHR ''?'') token"
  define ig where "ig = (take 1 token = ''?'')"
  obtain r1 s1 where n: "parse_syscall_number tabs tok sets = (r1, s1)"
    by (cases "parse_syscall_number tabs tok sets")
  obtain r2 s2 where c: "parse_syscall_class T tabs tok sets qm = (r2, s2)"
    by (cases "parse_syscall_class T tabs tok sets qm")
  obtain r3 s3 where m: "parse_syscall_name tabs tok s2 = (r3, s3)"
    by (cases "parse_syscall_name tabs tok s2")
  have s1: "map not_flag s1 = map not_flag sets"
    using parse_syscall_number_not_flag [of tabs tok sets] n by simp
  have s2: "map not_flag s2 = map not_flag sets"
    using parse_syscall_class_not_flag [of T tabs tok sets qm] c by simp
  have s3: "map not_flag s3 = map not_flag sets"
    using parse_syscall_name_not_flag [of tabs tok s2] m s2 by simp
  have eq: "parse_syscall rx T tabs token sets qm =
     (if tok \<noteq> [] \<and> is_digit (hd tok) then Some (r1 \<or> ig, s1)
      else if take 1 tok = ''/'' then
        (case parse_syscall_regex rx tabs (tl tok) sets of
           None \<Rightarrow> None
         | Some (r, st) \<Rightarrow> Some (r \<or> ig, st))
      else if r2 then Some (True, s2) else Some (r3 \<or> ig, s3))"
    unfolding parse_syscall_def Let_def tok_def [symmetric] ig_def [symmetric] n c
    by (cases r2) (simp_all only: m prod.case bool.case if_True if_False simp_thms)
  show ?thesis
  proof (cases "tok \<noteq> [] \<and> is_digit (hd tok)")
    case True
    with assms eq s1 show ?thesis by auto
  next
    case False
    show ?thesis
    proof (cases "take 1 tok = ''/''")
      case True
      with False assms eq obtain r' where "parse_syscall_regex rx tabs (tl tok) sets = Some r'"
        and "snd r = snd r'"
        by (auto split: option.splits)
      then show ?thesis by (simp add: parse_syscall_regex_not_flag)
    next
      case nm: False
      with False assms eq have "r = (True, s2) \<or> r = (r3 \<or> ig, s3)"
        by (auto split: if_splits)
      with s2 s3 show ?thesis by auto
    qed
  qed
qed

lemma parse_syscall_tokens_not_flag:
  "parse_syscall_tokens rx T tabs tokens sets qm = Some sets' \<Longrightarrow>
   map not_flag sets' = map not_flag sets"
proof (induction tokens arbitrary: sets)
  case Nil
  then show ?case by simp
next
  case (Cons token rest)
  from Cons.prems obtain st
    where 1: "parse_syscall rx T tabs token sets qm = Some (True, st)"
      and 2: "parse_syscall_tokens rx T tabs rest st qm = Some sets'"
    by (auto split: option.splits bool.splits)
  from parse_syscall_not_flag [OF 1] Cons.IH [OF 2] show ?case by simp
qed

lemma strtok_acc_cur:
  "cur \<noteq> [] \<Longrightarrow> \<exists>u ts. strtok_acc delim str cur = (cur @ u) # ts"
proof (induction str arbitrary: cur)
  case Nil
  then show ?case by simp
next
  case (Cons c cs)
  show ?case
  proof (cases "c \<in> set delim")
    case True
    with Cons.prems show ?thesis by simp
  next
    case False
    from Cons.IH [of "cur @ [c]"] obtain u ts
      where "strtok_acc delim cs (cur @ [c]) = ((cur @ [c]) @ u) # ts" by auto
    with False show ?thesis by simp
  qed
qed

lemma strtok_r_bang:
  "\<exists>u ts. strtok_r (CHR ''!'' # R) '','' = (CHR ''!'' # u) # ts"
  using strtok_acc_cur [of "''!''" "'',''" R] by (simp add: strtok_r_def)

lemma xor_not_eq: "xor_not b = (\<lambda>s. s\<lparr>not_flag := (not_flag s \<noteq> b)\<rparr>)"
  by (rule ext) (simp add: xor_not_def)

text \<open>
  Claim C3.  Parsing \<open>none\<close> adds no number to any personality's set and leaves
  every inversion flag as it is; parsing \<open>all\<close> adds no number and flips the
  inversion flag of every personality's set; so \<open>all\<close> followed by \<open>none\<close> on the
  same sets ends in the state that \<open>all\<close> alone gives.
\<close>

theorem parse_syscall_set_none_all:
  assumes "length sets = length tabs"
  shows "parse_syscall_set rx T tabs ''none'' sets qm = Some sets
    \<and> parse_syscall_set rx T tabs ''all'' sets qm
        = Some (map (\<lambda>s. s\<lparr>not_flag := \<not> not_flag s\<rparr>) sets)
    \<and> Option.bind (parse_syscall_set rx T tabs ''all'' sets qm)
          (\<lambda>st. parse_syscall_set rx T tabs ''none'' st qm)
        = parse_syscall_set rx T tabs ''all'' sets qm"
proof -
  have none: "parse_syscall_set rx T tabs ''none'' st qm = Some st" for st
    by (simp add: parse_syscall_set_def)
  have "parse_syscall_set rx T tabs ''all'' sets qm = Some (invert_sets (length tabs) sets)"
    by (simp add: parse_syscall_set_def)
  then have all: "parse_syscall_set rx T tabs ''all'' sets qm
        = Some (map (\<lambda>s. s\<lparr>not_flag := \<not> not_flag s\<rparr>) sets)"
    using assms by (simp add: invert_sets_map xor_not_eq)
  show ?thesis
    by (simp add: none all)
qed

theorem parse_syscall_set_none_all_witness:
  "length ex_sets = length ex_sysent_vec
   \<and> parse_syscall_set ex_regcomp ex_trace_flags ex_sysent_vec ''none'' ex_sets True
       = Some [\<lparr>vec = [1], not_flag = False\<rparr>, \<lparr>vec = [], not_flag = True\<rparr>]
   \<and> parse_syscall_set ex_regcomp ex_trace_flags ex_sysent_vec ''all'' ex_sets True
       = Some [\<lparr>vec = [1], not_flag = True\<rparr>, \<lparr>vec = [], not_flag = False\<rparr>]"
proof -
  have len: "length ex_sets = length ex_sysent_vec"
    by (simp add: ex_sets_def ex_sysent_vec_def)
  show ?thesis
    using len parse_syscall_set_none_all [OF len, of ex_regcomp ex_trace_flags True]
    by (simp add: ex_sets_def)
qed

text \<open>
  Claim C2.  In qualify mode, parsing \<open>k\<close> characters \<open>!\<close> followed by \<open>P\<close>
  gives, for every personality, the bit vector that parsing \<open>P\<close> alone gives, with the
  inversion flag XORed by \<open>k mod 2\<close> (and fails exactly when parsing \<open>P\<close> fails).
  In non-qualify mode a leading \<open>!\<close> is not consumed: it stays the first character
  of the first token handed to the token parser, and no inversion flag changes.
\<close>

theorem parse_syscall_set_leading_inversions:
  assumes "length sets = length tabs"
  shows "parse_syscall_set rx T tabs (replicate k CHR ''!'' @ P) sets True
           = map_option (map (\<lambda>s. s\<lparr>not_flag := (not_flag s \<noteq> odd k)\<rparr>))
               (parse_syscall_set rx T tabs P sets True)
    \<and> (\<exists>u ts. strtok_r (replicate (Suc k) CHR ''!'' @ P) '','' = (CHR ''!'' # u) # ts
          \<and> parse_syscall_set rx T tabs (replicate (Suc k) CHR ''!'' @ P) sets False
              = parse_syscall_tokens rx T tabs ((CHR ''!'' # u) # ts) sets False)
    \<and> (\<forall>sets'. parse_syscall_set rx T tabs (replicate (Suc k) CHR ''!'' @ P) sets False
                   = Some sets'
          \<longrightarrow> map not_flag sets' = map not_flag sets)"
proof -
  let ?R = "replicate k CHR ''!'' @ P"
  have q: "parse_syscall_set rx T tabs ?R sets True
           = map_option (map (\<lambda>s. s\<lparr>not_flag := (not_flag s \<noteq> odd k)\<rparr>))
               (parse_syscall_set rx T tabs P sets True)"
    using assms parse_syscall_set_replicate [OF assms, of rx T k P]
      parse_syscall_set_xor_not [OF assms, of rx T P "odd k"]
    by (simp add: xor_not_eq)
  obtain u ts where tok: "strtok_r (CHR ''!'' # ?R) '','' = (CHR ''!'' # u) # ts"
    using strtok_r_bang [of ?R] by blast
  have nq: "parse_syscall_set rx T tabs (CHR ''!'' # ?R) sets False
            = parse_syscall_tokens rx T tabs ((CHR ''!'' # u) # ts) sets False"
    by (simp add: parse_syscall_set_def tok)
  have keep: "map not_flag sets' = map not_flag sets"
    if "parse_syscall_set rx T tabs (CHR ''!'' # ?R) sets False = Some sets'" for sets'
    using that parse_syscall_tokens_not_flag [of rx T tabs "(CHR ''!'' # u) # ts" sets False sets']
    unfolding nq by blast
  show ?thesis
    using q tok nq keep by simp
qed

theorem parse_syscall_set_leading_inversions_witness:
  "length ex_sets = length ex_sysent_vec
   \<and> parse_syscall_set ex_regcomp ex_trace_flags ex_sysent_vec ''open'' ex_sets True
       = Some [\<lparr>vec = [5], not_flag = False\<rparr>, \<lparr>vec = [1], not_flag = True\<rparr>]
   \<and> parse_syscall_set ex_regcomp ex_trace_flags ex_sysent_vec ''!!!open'' ex_sets True
       = Some [\<lparr>vec = [5], not_flag = True\<rparr>, \<lparr>vec = [1], not_flag = False\<rparr>]
   \<and> parse_syscall_set ex_regcomp ex_trace_flags ex_sysent_vec ''!!!open'' ex_sets False
       = None"
proof -
  have len: "length ex_sets = length ex_sysent_vec"
    by (simp add: ex_sets_def ex_sysent_vec_def)
  have e1: "parse_syscall_set ex_regcomp ex_trace_flags ex_sysent_vec ''open'' ex_sets True
       = Some [\<lparr>vec = [5], not_flag = False\<rparr>, \<lparr>vec = [1], not_flag = True\<rparr>]"
    by code_simp
  have e2: "parse_syscall_set ex_regcomp ex_trace_flags ex_sysent_vec ''!!!open'' ex_sets False
       = None"
    by code_simp
  have r: "replicate 3 CHR ''!'' @ ''open'' = ''!!!open''"
    by (simp add: numeral_3_eq_3)
  show ?thesis
    using len e1 e2 r
      parse_syscall_set_leading_inversions [OF len, of ex_regcomp ex_trace_flags 3 "''open''"]
    by (simp add: numeral_3_eq_3)
qed

subsection \<open>Injection options\<close>

lemma string_to_uint_ex_digits:
  assumes "is_uint F"
  shows "string_to_uint_ex F m acc = (if dec_val F \<le> m then int (dec_val F) else - 1, [])"
proof -
  from assms have tw: "takeWhile is_digit F = F" and dw: "dropWhile is_digit F = []"
    by (auto simp: is_uint_def list_all_iff)
  from assms have "F \<noteq> []" by (simp add: is_uint_def)
  then show ?thesis
    unfolding string_to_uint_ex_def Let_def tw dw by auto
qed

lemma string_to_uint_ex_digits_plus:
  assumes "is_uint F"
  shows "string_to_uint_ex (F @ CHR ''+'' # R) m ''+''
         = (if dec_val F \<le> m then int (dec_val F) else - 1, CHR ''+'' # R)"
proof -
  have nd: "\<not> is_digit CHR ''+''" by (simp add: is_digit_def)
  from assms have all: "\<And>c. c \<in> set F \<Longrightarrow> is_digit c"
    by (auto simp: is_uint_def list_all_iff)
  have tw: "takeWhile is_digit (F @ CHR ''+'' # R) = F"
    using all nd by simp
  have dw: "dropWhile is_digit (F @ CHR ''+'' # R) = CHR ''+'' # R"
    using all nd by simp
  from assms have "F \<noteq> []" by (simp add: is_uint_def)
  then show ?thesis
    unfolding string_to_uint_ex_def Let_def tw dw by auto
qed

lemma strip_when: "STR_STRIP_PREFIX (''when='' @ X) ''when='' = Some X"
  by (simp add: STR_STRIP_PREFIX_def)

lemma parse_when_F:
  assumes "is_uint F"
  shows "parse_when F fopts =
     (if in_when_range (dec_val F)
      then (True, fopts\<lparr>first := of_nat (dec_val F), step := 0\<rparr>) else (False, fopts))"
  by (auto simp: parse_when_def string_to_uint_ex_digits [OF assms] in_when_range_def)

lemma parse_when_F_plus:
  assumes "is_uint F"
  shows "parse_when (F @ [CHR ''+'']) fopts =
     (if in_when_range (dec_val F)
      then (True, fopts\<lparr>first := of_nat (dec_val F), step := 1\<rparr>) else (False, fopts))"
  by (auto simp: parse_when_def string_to_uint_ex_digits_plus [OF assms] in_when_range_def)

lemma parse_when_F_plus_S:
  assumes "is_uint F" "is_uint S"
  shows "parse_when (F @ CHR ''+'' # S) fopts =
     (if in_when_range (dec_val F)
      then (if in_when_range (dec_val S)
            then (True, fopts\<lparr>first := of_nat (dec_val F), step := of_nat (dec_val S)\<rparr>)
            else (False, fopts\<lparr>first := of_nat (dec_val F)\<rparr>))
      else (False, fopts))"
proof -
  from assms(2) have "S \<noteq> []" by (simp add: is_uint_def)
  then show ?thesis
    by (auto simp: parse_when_def string_to_uint_ex_digits_plus [OF assms(1)]
        string_to_uint_upto_def string_to_uint_ex_digits [OF assms(2)] in_when_range_def Let_def)
qed

lemma unat_when: "in_when_range v \<Longrightarrow> unat (of_nat v :: 16 word) = v"
  by (simp add: in_when_range_def unat_of_nat)

text \<open>
  Claim C4.  For digit strings \<open>F\<close> and \<open>S\<close>: \<open>when=F\<close> sets \<open>first = F, step = 0\<close>,
  \<open>when=F+\<close> sets \<open>first = F, step = 1\<close>, and \<open>when=F+S\<close> sets
  \<open>first = F, step = S\<close>; the token is accepted exactly when \<open>F\<close> and (where
  present) \<open>S\<close> are in \<open>1..65535\<close>, and the 16-bit fields then hold the values
  unchanged.  (So \<open>when=65535+65535\<close> is accepted and \<open>when=0\<close>,
  \<open>when=65536\<close> are rejected, as evaluated right after.)
\<close>

theorem parse_inject_token_when:
  assumes "is_uint F" and "is_uint S"
  shows "parse_inject_token E (''when='' @ F) fopts ft
           = (if in_when_range (dec_val F)
              then (True, fopts\<lparr>first := of_nat (dec_val F), step := 0\<rparr>)
              else (False, fopts))
    \<and> parse_inject_token E (''when='' @ F @ ''+'') fopts ft
           = (if in_when_range (dec_val F)
              then (True, fopts\<lparr>first := of_nat (dec_val F), step := 1\<rparr>)
              else (False, fopts))
    \<and> fst (parse_inject_token E (''when='' @ F @ ''+'' @ S) fopts ft)
           = (in_when_range (dec_val F) \<and> in_when_range (dec_val S))
    \<and> (in_when_range (dec_val F) \<and> in_when_range (dec_val S) \<longrightarrow>
          snd (parse_inject_token E (''when='' @ F @ ''+'' @ S) fopts ft)
            = fopts\<lparr>first := of_nat (dec_val F), step := of_nat (dec_val S)\<rparr>
          \<and> unat (of_nat (dec_val F) :: 16 word) = dec_val F
          \<and> unat (of_nat (dec_val S) :: 16 word) = dec_val S)"
proof -
  have t: "parse_inject_token E (''when='' @ X) fopts ft = parse_when X fopts" for X
    unfolding parse_inject_token_def strip_when by simp
  show ?thesis
    unfolding t
    by (simp add: parse_when_F [OF assms(1)] parse_when_F_plus [OF assms(1)]
        parse_when_F_plus_S [OF assms] unat_when)
qed

theorem parse_inject_token_when_witness:
  "is_uint ''65535'' \<and> is_uint ''0'' \<and> is_uint ''65536''
   \<and> parse_inject_token ex_inject_env ''when=65535+65535'' ex_inject_opts False
       = (True, \<lparr>first = 65535, step = 65535, rval = 7, signo = 7, init = True\<rparr>)
   \<and> parse_inject_token ex_inject_env ''when=65535+'' ex_inject_opts False
       = (True, \<lparr>first = 65535, step = 1, rval = 7, signo = 7, init = True\<rparr>)
   \<and> parse_inject_token ex_inject_env ''when=65535'' ex_inject_opts False
       = (True, \<lparr>first = 65535, step = 0, rval = 7, signo = 7, init = True\<rparr>)
   \<and> parse_inject_token ex_inject_env ''when=0'' ex_inject_opts False = (False, ex_inject_opts)
   \<and> parse_inject_token ex_inject_env ''when=65536'' ex_inject_opts False
       = (False, ex_inject_opts)
   \<and> \<not> fst (parse_inject_token ex_inject_env ''when=65535+65536'' ex_inject_opts False)"
proof -
  have u: "is_uint ''65535''" "is_uint ''0''" "is_uint ''65536''"
    by (simp_all add: is_uint_def is_digit_def)
  have v: "dec_val ''65535'' = 65535" "dec_val ''0'' = 0" "dec_val ''65536'' = 65536"
    by (simp_all add: dec_val_def digit_val_def)
  show ?thesis
    using u
      parse_inject_token_when [OF u(1) u(1), of ex_inject_env ex_inject_opts False]
      parse_inject_token_when [OF u(2) u(1), of ex_inject_env ex_inject_opts False]
      parse_inject_token_when [OF u(3) u(1), of ex_inject_env ex_inject_opts False]
      parse_inject_token_when [OF u(1) u(3), of ex_inject_env ex_inject_opts False]
    by (simp add: v in_when_range_def ex_inject_opts_def prod_eq_iff)
qed

lemma init_parse_inject_token:
  "init (snd (parse_inject_token E token fopts ft)) = init fopts"
  by (auto simp: parse_inject_token_def parse_when_def parse_error_tok_def
      parse_retval_tok_def parse_signal_tok_def Let_def
      split: option.splits prod.splits)

lemma init_parse_inject_tokens:
  "init (snd (parse_inject_tokens E tokens opts ft)) = init opts"
proof (induction tokens arbitrary: opts)
  case Nil
  then show ?case by simp
next
  case (Cons token rest)
  obtain ok opts' where t: "parse_inject_token E token opts ft = (ok, opts')"
    by (cases "parse_inject_token E token opts ft")
  with init_parse_inject_token [of E token opts ft] have "init opts' = init opts" by simp
  with t Cons.IH [of opts'] show ?case by (cases ok) simp_all
qed

text \<open>
  Claim C5.  When the token loop completes with \<open>rval\<close> still the default sentinel
  and \<open>signo = 0\<close>: in fault syntax the result has \<open>rval = -ENOSYS\<close> and is
  initialised, in inject syntax it is not initialised.  In general the result is
  initialised exactly when the token loop completes and the post-check passes.
\<close>

theorem parse_inject_common_args_post_check:
  assumes "parse_inject_tokens E (inject_tokens str qm)
             (opts0\<lparr>first := 1, step := 1, rval := INJECT_OPTS_RVAL_DEFAULT E,
                     signo := 0, init := False\<rparr>) ft = (completed, opts)"
  shows "(completed \<and> rval opts = INJECT_OPTS_RVAL_DEFAULT E \<and> signo opts = 0 \<and> ft \<longrightarrow>
            parse_inject_common_args E str opts0 ft qm = opts\<lparr>rval := - ENOSYS E, init := True\<rparr>
            \<and> rval (parse_inject_common_args E str opts0 ft qm) = - ENOSYS E
            \<and> init (parse_inject_common_args E str opts0 ft qm))
    \<and> (completed \<and> rval opts = INJECT_OPTS_RVAL_DEFAULT E \<and> signo opts = 0 \<and> \<not> ft \<longrightarrow>
            parse_inject_common_args E str opts0 ft qm = opts
            \<and> \<not> init (parse_inject_common_args E str opts0 ft qm))
    \<and> (init (parse_inject_common_args E str opts0 ft qm)
         = (completed \<and> (rval opts = INJECT_OPTS_RVAL_DEFAULT E \<and> signo opts = 0 \<longrightarrow> ft)))"
proof -
  have "init opts = False"
    using init_parse_inject_tokens [of E "inject_tokens str qm"
        "opts0\<lparr>first := 1, step := 1, rval := INJECT_OPTS_RVAL_DEFAULT E,
               signo := 0, init := False\<rparr>" ft] assms
    by simp
  then show ?thesis
    using assms by (cases completed) (auto simp: parse_inject_common_args_def Let_def)
qed

theorem parse_inject_common_args_post_check_witness:
  "parse_inject_common_args ex_inject_env ''when=2+'' ex_inject_opts True True
     = \<lparr>first = 2, step = 1, rval = - 38, signo = 0, init = True\<rparr>
   \<and> parse_inject_common_args ex_inject_env ''when=2+'' ex_inject_opts False True
     = \<lparr>first = 2, step = 1, rval = - 4096, signo = 0, init = False\<rparr>"
proof -
  have loop: "parse_inject_tokens ex_inject_env (inject_tokens ''when=2+'' True)
             (ex_inject_opts\<lparr>first := 1, step := 1,
                rval := INJECT_OPTS_RVAL_DEFAULT ex_inject_env, signo := 0, init := False\<rparr>) ft
        = (True, \<lparr>first = 2, step = 1, rval = - 4096, signo = 0, init = False\<rparr>)" for ft
    by (simp add: inject_tokens_def strtok_r_def parse_inject_token_def STR_STRIP_PREFIX_def
        parse_when_def string_to_uint_ex_def is_digit_def dec_val_def digit_val_def
        ex_inject_opts_def ex_inject_env_def Let_def)
  show ?thesis
    using parse_inject_common_args_post_check [OF loop [of True]]
      parse_inject_common_args_post_check [OF loop [of False]]
    by (simp add: ex_inject_env_def)
qed

lemma strtok_r_no_delim:
  "s \<noteq> [] \<Longrightarrow> set s \<inter> set delim = {} \<Longrightarrow> strtok_r s delim = [s]"
proof -
  have "set s \<inter> set delim = {} \<Longrightarrow> strtok_acc delim s cur = (if cur @ s = [] then [] else [cur @ s])"
    for cur
    by (induction s arbitrary: cur) auto
  then show "s \<noteq> [] \<Longrightarrow> set s \<inter> set delim = {} \<Longrightarrow> strtok_r s delim = [s]"
    by (simp add: strtok_r_def)
qed

lemma inject_tokens_error_ENOSYS:
  "inject_tokens ''error=ENOSYS'' qm = [''error=ENOSYS'']"
  by (cases qm) (simp_all add: inject_tokens_def strtok_r_no_delim)

lemma inject_tokens_empty:
  "inject_tokens [] qm = []"
  by (simp add: inject_tokens_def strtok_r_def)

lemma parse_inject_token_error_ENOSYS:
  assumes "find_errno_by_name (errnoent E) ''ENOSYS'' = ENOSYS E" and "0 < ENOSYS E"
    and "rval fopts = INJECT_OPTS_RVAL_DEFAULT E"
  shows "parse_inject_token E ''error=ENOSYS'' fopts True = (True, fopts\<lparr>rval := - ENOSYS E\<rparr>)"
proof -
  have "string_to_uint_upto ''ENOSYS'' m = - 1" for m
    by (simp add: string_to_uint_upto_def string_to_uint_ex_def is_digit_def)
  then have "parse_error_tok E ''ENOSYS'' fopts = (True, fopts\<lparr>rval := - ENOSYS E\<rparr>)"
    using assms by (simp add: parse_error_tok_def)
  then show ?thesis
    by (simp add: parse_inject_token_def STR_STRIP_PREFIX_def)
qed

text \<open>
  Claim C9, amended.  When the errno table resolves \<open>ENOSYS\<close> to the constant
  \<open>ENOSYS\<close>, the fault arguments \<open>error=ENOSYS\<close> and the empty argument string
  give the same options in every field, \<open>initialised\<close> included:
  \<open>first = 1, step = 1, rval = -ENOSYS, signo = 0, initialised = true\<close>, and the
  qualifier accepts both.  (Nothing is said of an absent argument string.)
\<close>

theorem fault_error_ENOSYS_same_as_default:
  assumes "find_errno_by_name (errnoent E) ''ENOSYS'' = ENOSYS E" and "0 < ENOSYS E"
  shows "parse_inject_common_args E ''error=ENOSYS'' opts1 True qm
           = \<lparr>first = 1, step = 1, rval = - ENOSYS E, signo = 0, init = True\<rparr>
    \<and> parse_inject_common_args E [] opts2 True qm
           = \<lparr>first = 1, step = 1, rval = - ENOSYS E, signo = 0, init = True\<rparr>
    \<and> parse_inject_common_qualify_opts E opts1 (Some ''error=ENOSYS'') True
           = Inr \<lparr>first = 1, step = 1, rval = - ENOSYS E, signo = 0, init = True\<rparr>
    \<and> parse_inject_common_qualify_opts E opts2 (Some []) True
           = Inr \<lparr>first = 1, step = 1, rval = - ENOSYS E, signo = 0, init = True\<rparr>"
proof -
  let ?d = "\<lambda>x. x\<lparr>first := 1, step := 1, rval := INJECT_OPTS_RVAL_DEFAULT E,
                     signo := 0, init := False\<rparr>"
  have tok: "parse_inject_token E ''error=ENOSYS'' (?d opts1) True
             = (True, (?d opts1)\<lparr>rval := - ENOSYS E\<rparr>)"
    by (rule parse_inject_token_error_ENOSYS [OF assms]) simp
  have a: "parse_inject_common_args E ''error=ENOSYS'' opts1 True qm
           = \<lparr>first = 1, step = 1, rval = - ENOSYS E, signo = 0, init = True\<rparr>" for qm
    by (simp add: parse_inject_common_args_def inject_tokens_error_ENOSYS tok)
  have b: "parse_inject_common_args E [] opts2 True qm
           = \<lparr>first = 1, step = 1, rval = - ENOSYS E, signo = 0, init = True\<rparr>" for qm
    by (simp add: parse_inject_common_args_def inject_tokens_empty)
  show ?thesis
    by (simp add: a b parse_inject_common_qualify_opts_def)
qed

lemma ex_find_errno_ENOSYS:
  "find_errno_by_name (errnoent ex_inject_env) ''ENOSYS'' = ENOSYS ex_inject_env"
  by code_simp

theorem fault_error_ENOSYS_same_as_default_witness:
  "find_errno_by_name (errnoent ex_inject_env) ''ENOSYS'' = ENOSYS ex_inject_env
   \<and> 0 < ENOSYS ex_inject_env
   \<and> parse_inject_common_args ex_inject_env ''error=ENOSYS'' ex_inject_opts True True
       = \<lparr>first = 1, step = 1, rval = - 38, signo = 0, init = True\<rparr>
   \<and> parse_inject_common_args ex_inject_env [] ex_inject_opts True True
       = \<lparr>first = 1, step = 1, rval = - 38, signo = 0, init = True\<rparr>"
proof -
  have p: "0 < ENOSYS ex_inject_env" by (simp add: ex_inject_env_def)
  have e: "ENOSYS ex_inject_env = 38" by (simp add: ex_inject_env_def)
  show ?thesis
    using ex_find_errno_ENOSYS p
      fault_error_ENOSYS_same_as_default [OF ex_find_errno_ENOSYS p,
        of ex_inject_opts True ex_inject_opts]
    by (simp add: e)
qed

text \<open>
  The claim as stated has the two results differ in \<open>initialised\<close>; on the empty
  argument string they do not: both are initialised.
\<close>

theorem fault_error_ENOSYS_init_counterexample:
  "init (parse_inject_common_args ex_inject_env ''error=ENOSYS'' ex_inject_opts True True)
   = init (parse_inject_common_args ex_inject_env [] ex_inject_opts True True)
   \<and> init (parse_inject_common_args ex_inject_env [] ex_inject_opts True True)"
  by code_simp

subsection \<open>The fd filter\<close>

lemma parse_fd_filter_0_1:
  "parse_fd_filter ''0,1'' True = Some \<lparr>vec = [3], not_flag = False\<rparr>"
  by (simp add: parse_fd_filter_def parse_set_def strtok_r_def string_to_uint_def
      string_to_uint_upto_def string_to_uint_ex_def is_digit_def dec_val_def digit_val_def
      INT_MAX_def add_number_to_set_def reallocate_number_set_def nslots_def
      number_setbit_def BITS_PER_SLOT_def Let_def)

text \<open>
  Claim C8.  The run function of the fd filter hands every event but the two message
  queue ones to \<open>match_fd_common\<close>, with the predicate \<open>is_fd_in_set\<close> on the set; a
  negative descriptor satisfies the predicate exactly when the set is inverted, so an
  ordinary event whose descriptor argument is negative matches exactly when the set is
  inverted.  For an event tagged \<open>mq_timedsend\<close> or \<open>mq_timedreceive\<close> the descriptor
  tested is argument 0 of the event, whatever \<open>match_fd_common\<close> does, and a negative
  one matches exactly when the set is inverted.  So the set of \<open>read=0,1\<close> matches
  \<open>mq_timedsend\<close> with descriptor 1 and not with descriptor 2.
\<close>

theorem run_fd_filter_spec:
  "(fd < 0 \<longrightarrow> is_fd_in_set tcp fd s = not_flag s)
   \<and> (sen tcp = SEN_other k \<longrightarrow>
         run_fd_filter match_fd_common tcp s
           = match_fd_common tcp (\<lambda>fd. is_fd_in_set tcp fd s)
         \<and> ((\<forall>P. match_fd_common tcp P = P fd) \<and> fd < 0 \<longrightarrow>
               run_fd_filter match_fd_common tcp s = not_flag s))
   \<and> (sen tcp = SEN_mq_timedsend \<or> sen tcp = SEN_mq_timedreceive \<longrightarrow>
         run_fd_filter match_fd_common tcp s = is_fd_in_set tcp (arg_to_int (u_arg tcp ! 0)) s
         \<and> (arg_to_int (u_arg tcp ! 0) < 0 \<longrightarrow> run_fd_filter match_fd_common tcp s = not_flag s))
   \<and> parse_fd_filter ''0,1'' True = Some \<lparr>vec = [3], not_flag = False\<rparr>
   \<and> run_fd_filter match_fd_common \<lparr>sen = SEN_mq_timedsend, u_arg = 1 # args, qual_flg = q\<rparr>
         \<lparr>vec = [3], not_flag = False\<rparr>
   \<and> \<not> run_fd_filter match_fd_common \<lparr>sen = SEN_mq_timedsend, u_arg = 2 # args, qual_flg = q\<rparr>
         \<lparr>vec = [3], not_flag = False\<rparr>"
proof -
  have neg: "fd < 0 \<longrightarrow> is_fd_in_set tcp fd s = not_flag s"
    by (simp add: is_fd_in_set_def)
  have other: "sen tcp = SEN_other k \<longrightarrow>
         run_fd_filter match_fd_common tcp s
           = match_fd_common tcp (\<lambda>fd. is_fd_in_set tcp fd s)
         \<and> ((\<forall>P. match_fd_common tcp P = P fd) \<and> fd < 0 \<longrightarrow>
               run_fd_filter match_fd_common tcp s = not_flag s)"
    by (simp add: run_fd_filter_def is_fd_in_set_def)
  have mq: "sen tcp = SEN_mq_timedsend \<or> sen tcp = SEN_mq_timedreceive \<longrightarrow>
         run_fd_filter match_fd_common tcp s = is_fd_in_set tcp (arg_to_int (u_arg tcp ! 0)) s
         \<and> (arg_to_int (u_arg tcp ! 0) < 0 \<longrightarrow> run_fd_filter match_fd_common tcp s = not_flag s)"
    by (auto simp: run_fd_filter_def is_fd_in_set_def)
  have one: "run_fd_filter match_fd_common \<lparr>sen = SEN_mq_timedsend, u_arg = 1 # args, qual_flg = q\<rparr>
         \<lparr>vec = [3], not_flag = False\<rparr>"
    by (simp add: run_fd_filter_def is_fd_in_set_def arg_to_int_def is_number_in_set_def
        number_isset_def nslots_def BITS_PER_SLOT_def)
  have two: "\<not> run_fd_filter match_fd_common \<lparr>sen = SEN_mq_timedsend, u_arg = 2 # args, qual_flg = q\<rparr>
         \<lparr>vec = [3], not_flag = False\<rparr>"
    by (simp add: run_fd_filter_def is_fd_in_set_def arg_to_int_def is_number_in_set_def
        number_isset_def nslots_def BITS_PER_SLOT_def)
  show ?thesis
    using neg other mq one two parse_fd_filter_0_1 by blast
qed

theorem run_fd_filter_spec_witness:
  "arg_to_int 4294967295 < 0
   \<and> run_fd_filter (\<lambda>tcp P. False)
         \<lparr>sen = SEN_mq_timedreceive, u_arg = [4294967295, 0, 0], qual_flg = 0\<rparr>
         \<lparr>vec = [3], not_flag = True\<rparr>
   \<and> \<not> run_fd_filter (\<lambda>tcp P. False)
         \<lparr>sen = SEN_mq_timedreceive, u_arg = [4294967295, 0, 0], qual_flg = 0\<rparr>
         \<lparr>vec = [3], not_flag = False\<rparr>
   \<and> run_fd_filter (\<lambda>tcp P. P (- 1))
         \<lparr>sen = SEN_other 0, u_arg = [4294967295, 0, 0], qual_flg = 0\<rparr>
         \<lparr>vec = [], not_flag = True\<rparr>
   \<and> \<not> run_fd_filter (\<lambda>tcp P. P (- 1))
         \<lparr>sen = SEN_other 0, u_arg = [4294967295, 0, 0], qual_flg = 0\<rparr>
         \<lparr>vec = [3], not_flag = False\<rparr>
   \<and> run_fd_filter (\<lambda>tcp P. False) \<lparr>sen = SEN_mq_timedsend, u_arg = [1, 0, 0], qual_flg = 0\<rparr>
         \<lparr>vec = [3], not_flag = False\<rparr>
   \<and> \<not> run_fd_filter (\<lambda>tcp P. False) \<lparr>sen = SEN_mq_timedsend, u_arg = [2, 0, 0], qual_flg = 0\<rparr>
         \<lparr>vec = [3], not_flag = False\<rparr>"
proof -
  have n: "arg_to_int 4294967295 < 0"
    by (simp add: arg_to_int_def)
  have m: "\<forall>P. (\<lambda>tcp P. P (- 1 :: int)) t P = P (- 1)" for t :: tcb
    by simp
  show ?thesis
    using n
      run_fd_filter_spec [of "arg_to_int 4294967295"
        "\<lparr>sen = SEN_mq_timedreceive, u_arg = [4294967295, 0, 0], qual_flg = 0\<rparr>"
        "\<lparr>vec = [3], not_flag = True\<rparr>" 0 "\<lambda>tcp P. False" "[0, 0]" 0]
      run_fd_filter_spec [of "arg_to_int 4294967295"
        "\<lparr>sen = SEN_mq_timedreceive, u_arg = [4294967295, 0, 0], qual_flg = 0\<rparr>"
        "\<lparr>vec = [3], not_flag = False\<rparr>" 0 "\<lambda>tcp P. False" "[0, 0]" 0]
      run_fd_filter_spec [of "- 1"
        "\<lparr>sen = SEN_other 0, u_arg = [4294967295, 0, 0], qual_flg = 0\<rparr>"
        "\<lparr>vec = [], not_flag = True\<rparr>" 0 "\<lambda>tcp P. P (- 1)" "[0, 0]" 0]
      run_fd_filter_spec [of "- 1"
        "\<lparr>sen = SEN_other 0, u_arg = [4294967295, 0, 0], qual_flg = 0\<rparr>"
        "\<lparr>vec = [3], not_flag = False\<rparr>" 0 "\<lambda>tcp P. P (- 1)" "[0, 0]" 0]
    by simp
qed

subsection \<open>The signal set\<close>

lemma slot_add_number_to_set:
  "slot (add_number_to_set n s) i
   = (if i = n div 32 then slot s i OR push_bit (n mod 32) 1 else slot s i)"
  by (auto simp: slot_def add_number_to_set_def reallocate_number_set_def nslots_def
      number_setbit_def BITS_PER_SLOT_def Let_def nth_append nth_list_update)

lemma same_set_add_number_to_set:
  "same_set a b \<Longrightarrow> same_set (add_number_to_set n a) (add_number_to_set n b)"
  by (auto simp: same_set_def fun_eq_iff slot_add_number_to_set not_flag_add_number_to_set)

lemma same_set_parse_set_tokens:
  "same_set a b \<Longrightarrow>
   rel_option same_set (parse_set_tokens func tokens a) (parse_set_tokens func tokens b)"
  by (induction tokens arbitrary: a b) (simp_all add: Let_def same_set_add_number_to_set)

lemma same_set_invert:
  "same_set a b \<Longrightarrow> same_set (a\<lparr>not_flag := \<not> not_flag a\<rparr>) (b\<lparr>not_flag := \<not> not_flag b\<rparr>)"
proof -
  have "slot (s\<lparr>not_flag := x\<rparr>) = slot s" for s x
    by (simp add: slot_def nslots_def fun_eq_iff)
  then show "same_set a b \<Longrightarrow>
      same_set (a\<lparr>not_flag := \<not> not_flag a\<rparr>) (b\<lparr>not_flag := \<not> not_flag b\<rparr>)"
    by (simp add: same_set_def)
qed

lemma same_set_strip_inversions1:
  "same_set a b \<Longrightarrow>
   fst (strip_inversions1 str a) = fst (strip_inversions1 str b)
   \<and> same_set (snd (strip_inversions1 str a)) (snd (strip_inversions1 str b))"
  by (induction str arbitrary: a b) (simp_all add: same_set_invert)

lemma same_set_parse_set:
  assumes "same_set a b"
  shows "rel_option same_set (parse_set str a func qm) (parse_set str b func qm)"
proof -
  obtain s a' where ra: "(if qm then strip_inversions1 str a else (str, a)) = (s, a')"
    by (cases "if qm then strip_inversions1 str a else (str, a)")
  obtain s' b' where rb: "(if qm then strip_inversions1 str b else (str, b)) = (s', b')"
    by (cases "if qm then strip_inversions1 str b else (str, b)")
  from same_set_strip_inversions1 [OF assms, of str] ra rb assms
  have s: "s' = s" and ab: "same_set a' b'"
    by (auto split: if_splits)
  show ?thesis
    unfolding parse_set_def ra rb s
    using ab same_set_parse_set_tokens [OF ab] same_set_invert [OF ab]
    by (simp del: parse_set_tokens.simps split: list.splits)
qed

lemma same_set_is_number_in_set:
  "same_set a b \<Longrightarrow> is_number_in_set n a = is_number_in_set n b"
proof -
  have "is_number_in_set n s = (bit (slot s (n div 32)) (n mod 32) \<noteq> not_flag s)" for s
    by (simp add: is_number_in_set_def number_isset_bit slot_def BITS_PER_SLOT_def)
  then show "same_set a b \<Longrightarrow> is_number_in_set n a = is_number_in_set n b"
    by (simp add: same_set_def)
qed

lemma same_set_cleared:
  "same_set (s\<lparr>vec := replicate (nslots s) 0, not_flag := False\<rparr>) \<lparr>vec = [], not_flag = False\<rparr>"
  by (simp add: same_set_def slot_def nslots_def fun_eq_iff)

text \<open>
  Claim C10.  Every signal qualification first zeroes the allocated slots of
  \<open>signal_set\<close> and clears its inversion flag, then parses the new list.  So
  whatever an earlier signal qualification left in \<open>signal_set\<close>, qualifying a
  specification fails exactly when it fails on a fresh set, and otherwise the resulting
  set is the set obtained from a fresh set: the same inversion flag, the same members,
  the same slots (read as zero past the allocated range).  The later list replaces the
  earlier one and never accumulates with it.
\<close>

theorem qualify_signals_replaces:
  "(case (qualify_signals sgname spec args signal_set0,
          qualify_signals sgname spec args' \<lparr>vec = [], not_flag = False\<rparr>) of
      (Some r, Some r') \<Rightarrow>
        not_flag r = not_flag r'
        \<and> (\<forall>n. is_number_in_set n r = is_number_in_set n r')
        \<and> (\<forall>i. slot r i = slot r' i)
    | (None, None) \<Rightarrow> True
    | (Some r, None) \<Rightarrow> False
    | (None, Some r') \<Rightarrow> False)"
proof -
  have "rel_option same_set (qualify_signals sgname spec args signal_set0)
          (qualify_signals sgname spec args' \<lparr>vec = [], not_flag = False\<rparr>)"
    unfolding qualify_signals_def
    using same_set_parse_set [OF same_set_cleared [of signal_set0], of spec "sigstr_to_uint sgname" True]
      same_set_parse_set [OF same_set_cleared [of "\<lparr>vec = [], not_flag = False\<rparr>"],
        of spec "sigstr_to_uint sgname" True]
    by (simp add: nslots_def)
  then show ?thesis
    by (auto simp: option.rel_sel same_set_is_number_in_set split: option.splits)
       (simp_all add: same_set_def)
qed

lemma ex_qualify_signals_40:
  "qualify_signals ex_signame ''40'' None \<lparr>vec = [], not_flag = False\<rparr>
   = Some \<lparr>vec = [0, 256], not_flag = False\<rparr>"
  by (simp add: qualify_signals_def parse_set_def strtok_r_def sigstr_to_uint_def
      string_to_uint_upto_def string_to_uint_ex_def is_digit_def dec_val_def digit_val_def
      add_number_to_set_def reallocate_number_set_def nslots_def
      number_setbit_def BITS_PER_SLOT_def Let_def)

lemma ex_qualify_signals_1_after:
  "qualify_signals ex_signame ''1'' None \<lparr>vec = [0, 256], not_flag = False\<rparr>
   = Some \<lparr>vec = [2, 0], not_flag = False\<rparr>"
  by (simp add: qualify_signals_def parse_set_def strtok_r_def sigstr_to_uint_def
      string_to_uint_upto_def string_to_uint_ex_def is_digit_def dec_val_def digit_val_def
      add_number_to_set_def reallocate_number_set_def nslots_def
      number_setbit_def BITS_PER_SLOT_def Let_def)

lemma ex_qualify_signals_1_fresh:
  "qualify_signals ex_signame ''1'' None \<lparr>vec = [], not_flag = False\<rparr>
   = Some \<lparr>vec = [2], not_flag = False\<rparr>"
  by (simp add: qualify_signals_def parse_set_def strtok_r_def sigstr_to_uint_def
      string_to_uint_upto_def string_to_uint_ex_def is_digit_def dec_val_def digit_val_def
      add_number_to_set_def reallocate_number_set_def nslots_def
      number_setbit_def BITS_PER_SLOT_def Let_def)

theorem qualify_signals_replaces_witness:
  "qualify_signals ex_signame ''40'' None \<lparr>vec = [], not_flag = False\<rparr>
     = Some \<lparr>vec = [0, 256], not_flag = False\<rparr>
   \<and> qualify_signals ex_signame ''1'' None \<lparr>vec = [0, 256], not_flag = False\<rparr>
     = Some \<lparr>vec = [2, 0], not_flag = False\<rparr>
   \<and> qualify_signals ex_signame ''1'' None \<lparr>vec = [], not_flag = False\<rparr>
     = Some \<lparr>vec = [2], not_flag = False\<rparr>
   \<and> is_number_in_set 40 \<lparr>vec = [2, 0], not_flag = False\<rparr>
     = is_number_in_set 40 \<lparr>vec = [2], not_flag = False\<rparr>
   \<and> is_number_in_set 1 \<lparr>vec = [2, 0], not_flag = False\<rparr>
     = is_number_in_set 1 \<lparr>vec = [2], not_flag = False\<rparr>"
  using qualify_signals_replaces [of ex_signame "''1''" None
      "\<lparr>vec = [0, 256], not_flag = False\<rparr>" None]
  by (simp add: ex_qualify_signals_40 ex_qualify_signals_1_after ex_qualify_signals_1_fresh)

text \<open>
  The slots allocated by an earlier list stay allocated, zeroed: after \<open>40\<close> then
  \<open>1\<close> two slots are allocated, after \<open>1\<close> alone one.
\<close>

lemma qualify_signals_keeps_allocation:
  "Option.bind (qualify_signals ex_signame ''40'' None \<lparr>vec = [], not_flag = False\<rparr>)
     (qualify_signals ex_signame ''1'' None)
   = Some \<lparr>vec = [2, 0], not_flag = False\<rparr>
   \<and> qualify_signals ex_signame ''1'' None \<lparr>vec = [], not_flag = False\<rparr>
   = Some \<lparr>vec = [2], not_flag = False\<rparr>"
  by (simp add: ex_qualify_signals_40 ex_qualify_signals_1_after ex_qualify_signals_1_fresh)

subsection \<open>The order of actions\<close>

lemma compare_action_priority_less: "(compare_action_priority a b < 0) = goes_before a b"
  by (auto simp: compare_action_priority_def goes_before_def Let_def)

lemma compare_action_priority_nonzero: "compare_action_priority a b \<noteq> 0"
  by (simp add: compare_action_priority_def Let_def)

lemma goes_before_trans: "goes_before a b \<Longrightarrow> goes_before b c \<Longrightarrow> goes_before a c"
  by (auto simp: goes_before_def)

lemma goes_before_asym: "goes_before a b \<Longrightarrow> \<not> goes_before b a"
  by (auto simp: goes_before_def)

lemma goes_before_total:
  "action_id a \<noteq> action_id b \<Longrightarrow> goes_before a b \<or> goes_before b a"
  by (auto simp: goes_before_def)

lemma mset_qsort_insert: "mset (qsort_insert cmp x ys) = add_mset x (mset ys)"
  by (induction ys) auto

lemma mset_qsort: "mset (qsort cmp xs) = mset xs"
  by (induction xs) (simp_all add: qsort_def mset_qsort_insert)

lemma set_qsort_insert: "set (qsort_insert cmp x ys) = insert x (set ys)"
  using mset_qsort_insert [of cmp x ys, THEN arg_cong, of set_mset] by simp

lemma sorted_qsort_insert:
  assumes "sorted_wrt goes_before ys" and "action_id x \<notin> action_id ` set ys"
  shows "sorted_wrt goes_before (qsort_insert compare_action_priority x ys)"
  using assms
proof (induction ys)
  case Nil
  then show ?case by simp
next
  case (Cons y ys)
  show ?case
  proof (cases "goes_before x y")
    case True
    with Cons.prems have "\<forall>z\<in>set ys. goes_before x z"
      by (auto intro: goes_before_trans)
    with True Cons.prems show ?thesis
      by (simp add: compare_action_priority_less)
  next
    case False
    from Cons.prems have "action_id x \<noteq> action_id y" by auto
    with False have "goes_before y x" using goes_before_total by blast
    moreover from Cons.prems have "sorted_wrt goes_before (qsort_insert compare_action_priority x ys)"
      by (intro Cons.IH) auto
    ultimately show ?thesis
      using False Cons.prems
      by (simp add: compare_action_priority_less set_qsort_insert)
  qed
qed

lemma sorted_qsort:
  "distinct (map action_id xs) \<Longrightarrow> sorted_wrt goes_before (qsort compare_action_priority xs)"
proof (induction xs)
  case Nil
  then show ?case by (simp add: qsort_def)
next
  case (Cons x xs)
  have s: "set (qsort compare_action_priority xs) = set xs"
    using mset_qsort [of compare_action_priority xs, THEN arg_cong, of set_mset] by simp
  from Cons have "sorted_wrt goes_before (qsort compare_action_priority xs)" by simp
  moreover from Cons.prems have "action_id x \<notin> action_id ` set (qsort compare_action_priority xs)"
    by (simp add: s)
  ultimately have "sorted_wrt goes_before
      (qsort_insert compare_action_priority x (qsort compare_action_priority xs))"
    by (rule sorted_qsort_insert)
  then show ?case by (simp add: qsort_def)
qed

lemma sorted_wrt_goes_before_unique:
  "sorted_wrt goes_before xs \<Longrightarrow> sorted_wrt goes_before ys \<Longrightarrow> mset xs = mset ys \<Longrightarrow> xs = ys"
proof (induction xs arbitrary: ys)
  case Nil
  then show ?case by simp
next
  case (Cons x xs)
  from Cons.prems(3) obtain y ys' where ys: "ys = y # ys'"
    by (cases ys) auto
  have "x = y"
  proof (rule ccontr)
    assume ne: "x \<noteq> y"
    from Cons.prems(3) ys have "x \<in> set (y # ys')" "y \<in> set (x # xs)"
      by (metis list.set_intros(1) mset_eq_setD)+
    with ne have "x \<in> set ys'" "y \<in> set xs" by auto
    with Cons.prems(1,2) ys have "goes_before y x" "goes_before x y" by auto
    then show False using goes_before_asym by blast
  qed
  with Cons.prems ys have "xs = ys'"
    by (intro Cons.IH) auto
  with \<open>x = y\<close> ys show ?case by simp
qed

lemma ids_assigned_add_action: "ids_assigned st \<Longrightarrow> ids_assigned (add_action ty st)"
  by (simp add: ids_assigned_def add_action_def nfilter_actions_def Let_def)

lemma map_action_id_nfilters_update:
  "map action_id (xs[i := (xs ! i)\<lparr>nfilters := k\<rparr>]) = map action_id xs"
  by (cases "i < length xs") (simp_all add: map_update list_update_beyond list_update_same_conv)

lemma ids_assigned_add_filter_to_array:
  "ids_assigned st \<Longrightarrow> ids_assigned (add_filter_to_array i st)"
  by (simp add: ids_assigned_def add_filter_to_array_def nfilter_actions_def
      map_action_id_nfilters_update)

lemma lookup_trace:
  "lookup_filter_action_type Q ''trace''
   = Some (FILTER_ACTION_TYPE ''trace'' 0 (QUAL_TRACE Q) parse_null None)"
  by (simp add: lookup_filter_action_type_def action_types_def FILTER_ACTION_TYPE_def)

lemma find_or_add_action_trace:
  assumes "ids_assigned st"
  shows "\<exists>i st1. find_or_add_action Q ''trace'' st = Some (i, st1) \<and> ids_assigned st1"
  using assms ids_assigned_add_action [OF assms]
  by (auto simp: find_or_add_action_def lookup_trace split: option.splits)

lemma inject_path_tracing_ids:
  assumes "ids_assigned st"
  shows "\<exists>st'. inject_path_tracing Q st = Some st' \<and> ids_assigned st'"
proof -
  from find_or_add_action_trace [OF assms, of Q] obtain i st1
    where f: "find_or_add_action Q ''trace'' st = Some (i, st1)" and a: "ids_assigned st1"
    by blast
  then show ?thesis
    by (simp add: inject_path_tracing_def Let_def ids_assigned_add_filter_to_array)
qed

lemma ids_assigned_distinct: "ids_assigned st \<Longrightarrow> distinct (map action_id (filter_actions st))"
  by (simp add: ids_assigned_def)

lemma finish_sorts:
  assumes "ids_assigned st1"
  shows "\<exists>st'. (if nfilter_actions st1 = 0 then Some st1
           else
            (let sorted_actions = qsort compare_action_priority (filter_actions st1);
                 maxfilters = fold (\<lambda>a m. if m < nfilters a then nfilters a else m)
                                sorted_actions 0
             in Some (st1\<lparr>filter_actions := sorted_actions,
                           variables_buf := Some maxfilters\<rparr>))) = Some st'
        \<and> filter_actions st' = qsort compare_action_priority (filter_actions st1)"
  by (simp add: Let_def nfilter_actions_def qsort_def)

lemma map_id_type_nfilters_update:
  "map (\<lambda>a. (action_id a, action_type a)) (xs[i := (xs ! i)\<lparr>nfilters := k\<rparr>])
   = map (\<lambda>a. (action_id a, action_type a)) xs"
  by (cases "i < length xs") (simp_all add: map_update list_update_beyond list_update_same_conv)

lemma add_filter_to_array_id_type:
  "map (\<lambda>a. (action_id a, action_type a)) (filter_actions (add_filter_to_array i st))
   = map (\<lambda>a. (action_id a, action_type a)) (filter_actions st)"
  by (simp add: add_filter_to_array_def map_id_type_nfilters_update)

lemma find_or_add_action_trace_id_type:
  assumes "find_or_add_action Q ''trace'' st = Some (i, st1)"
  shows "map (\<lambda>a. (action_id a, action_type a)) (filter_actions st1)
         = map (\<lambda>a. (action_id a, action_type a)) (filter_actions st)
           @ (if list_all (\<lambda>a. action_type a
                  \<noteq> FILTER_ACTION_TYPE ''trace'' 0 (QUAL_TRACE Q) parse_null None)
                (filter_actions st)
              then [(nfilter_actions st,
                     FILTER_ACTION_TYPE ''trace'' 0 (QUAL_TRACE Q) parse_null None)]
              else [])"
proof -
  let ?T = "FILTER_ACTION_TYPE ''trace'' 0 (QUAL_TRACE Q) parse_null None"
  let ?f = "List.find (\<lambda>i. action_type (filter_actions st ! i) = ?T) [0..<nfilter_actions st]"
  have none: "(?f = None) = list_all (\<lambda>a. action_type a \<noteq> ?T) (filter_actions st)"
    using nth_mem [of _ "filter_actions st"]
    by (fastforce simp: find_None_iff list_all_iff nfilter_actions_def in_set_conv_nth)
  have pa: "parse_args ?T = parse_null"
    by (simp add: FILTER_ACTION_TYPE_def)
  show ?thesis
  proof (cases ?f)
    case None
    with assms pa have "st1 = add_action ?T st"
      by (simp add: find_or_add_action_def lookup_trace)
    with None none show ?thesis
      by (simp add: add_action_def Let_def)
  next
    case (Some j)
    with assms pa have "st1 = st"
      by (simp add: find_or_add_action_def lookup_trace)
    with Some none show ?thesis by auto
  qed
qed

lemma inject_path_tracing_id_type:
  assumes "inject_path_tracing Q st = Some st1"
  shows "map (\<lambda>a. (action_id a, action_type a)) (filter_actions st1)
         = map (\<lambda>a. (action_id a, action_type a)) (filter_actions st)
           @ (if list_all (\<lambda>a. action_type a
                  \<noteq> FILTER_ACTION_TYPE ''trace'' 0 (QUAL_TRACE Q) parse_null None)
                (filter_actions st)
              then [(nfilter_actions st,
                     FILTER_ACTION_TYPE ''trace'' 0 (QUAL_TRACE Q) parse_null None)]
              else [])"
proof -
  from assms obtain i st0 where f: "find_or_add_action Q ''trace'' st = Some (i, st0)"
    and st1: "st1 = add_filter_to_array i
               (if nfilters (filter_actions st0 ! i) = 0 then add_filter_to_array i st0 else st0)"
    by (auto simp: inject_path_tracing_def Let_def split: option.splits)
  have "map (\<lambda>a. (action_id a, action_type a)) (filter_actions st1)
        = map (\<lambda>a. (action_id a, action_type a)) (filter_actions st0)"
    unfolding st1 by (simp add: add_filter_to_array_id_type)
  then show ?thesis
    using find_or_add_action_trace_id_type [OF f] by simp
qed

lemma filter_syscall_split:
  "filter_syscall H tcp st =
     fold (\<lambda>action t. run_filter_action H t action) (drop k (filter_actions st))
       (fold (\<lambda>action t. run_filter_action H t action) (take k (filter_actions st))
          (tcp\<lparr>tcb.qual_flg := tcb.qual_flg tcp OR default_flags st\<rparr>))"
proof -
  let ?run = "\<lambda>action t. run_filter_action H t action"
  have "fold ?run (take k (filter_actions st) @ drop k (filter_actions st))
        = fold ?run (drop k (filter_actions st)) \<circ> fold ?run (take k (filter_actions st))"
    by (rule fold_append)
  then show ?thesis
    by (simp add: filter_syscall_def)
qed

text \<open>
  Claim C6.  Finalisation returns, and afterwards the action list is ordered by priority
  ascending; of two actions of equal priority the one with the larger id (declared
  later) stands first.  The per-event loop runs the actions in the order of the list:
  at every position, the actions before it have all been run when the ones from it on
  are run.  The comparator never answers 0, and the list is the only arrangement of
  its actions that the comparator accepts as sorted.  The list is a permutation of the
  actions as they stand after path injection (of the registered ones without path
  tracing): these are the registered actions with their ids and types, and under path
  tracing one more \<open>trace\<close> action, with the next id, when none was registered.
\<close>

theorem filtering_parsing_finish_order:
  assumes "ids_assigned st"
  shows "\<exists>st'. filtering_parsing_finish Q tracing_paths st = Some st'
    \<and> (\<forall>i j. i < j \<and> j < length (filter_actions st') \<longrightarrow>
          priority (action_type (filter_actions st' ! i))
            \<le> priority (action_type (filter_actions st' ! j))
          \<and> (priority (action_type (filter_actions st' ! i))
               = priority (action_type (filter_actions st' ! j))
             \<longrightarrow> action_id (filter_actions st' ! j) < action_id (filter_actions st' ! i)))
    \<and> (\<forall>a b. compare_action_priority a b \<noteq> 0)
    \<and> (\<forall>ys. mset ys = mset (filter_actions st')
             \<and> sorted_wrt (\<lambda>a b. compare_action_priority a b < 0) ys
          \<longrightarrow> ys = filter_actions st')
    \<and> (\<not> tracing_paths \<longrightarrow> mset (filter_actions st') = mset (filter_actions st))
    \<and> (\<exists>st1. (if tracing_paths then inject_path_tracing Q st else Some st) = Some st1
          \<and> mset (filter_actions st') = mset (filter_actions st1))
    \<and> mset (map (\<lambda>a. (action_id a, action_type a)) (filter_actions st'))
        = mset (map (\<lambda>a. (action_id a, action_type a)) (filter_actions st)
            @ (if tracing_paths
                  \<and> list_all (\<lambda>a. action_type a
                       \<noteq> FILTER_ACTION_TYPE ''trace'' 0 (QUAL_TRACE Q) parse_null None)
                     (filter_actions st)
               then [(nfilter_actions st,
                      FILTER_ACTION_TYPE ''trace'' 0 (QUAL_TRACE Q) parse_null None)]
               else []))
    \<and> (\<forall>H tcp k. filter_syscall H tcp st' =
          fold (\<lambda>action t. run_filter_action H t action) (drop k (filter_actions st'))
            (fold (\<lambda>action t. run_filter_action H t action) (take k (filter_actions st'))
               (tcp\<lparr>tcb.qual_flg := tcb.qual_flg tcp OR default_flags st'\<rparr>)))"
proof -
  let ?key = "\<lambda>a. (action_id a, action_type a)"
  obtain st1 where st1: "(if tracing_paths then inject_path_tracing Q st else Some st) = Some st1"
    and ids1: "ids_assigned st1" and same: "\<not> tracing_paths \<longrightarrow> st1 = st"
    using assms inject_path_tracing_ids [OF assms, of Q] by (cases tracing_paths) auto
  from finish_sorts [OF ids1] obtain st'
    where fin: "filtering_parsing_finish Q tracing_paths st = Some st'"
      and acts: "filter_actions st' = qsort compare_action_priority (filter_actions st1)"
    unfolding filtering_parsing_finish_def st1 by auto
  have sorted: "sorted_wrt goes_before (filter_actions st')"
    unfolding acts by (rule sorted_qsort [OF ids_assigned_distinct [OF ids1]])
  have order: "priority (action_type (filter_actions st' ! i))
            \<le> priority (action_type (filter_actions st' ! j))
          \<and> (priority (action_type (filter_actions st' ! i))
               = priority (action_type (filter_actions st' ! j))
             \<longrightarrow> action_id (filter_actions st' ! j) < action_id (filter_actions st' ! i))"
    if "i < j" "j < length (filter_actions st')" for i j
  proof -
    from sorted that have "goes_before (filter_actions st' ! i) (filter_actions st' ! j)"
      by (simp add: sorted_wrt_iff_nth_less)
    then show ?thesis by (auto simp: goes_before_def)
  qed
  have unique: "ys = filter_actions st'"
    if "mset ys = mset (filter_actions st')"
      and "sorted_wrt (\<lambda>a b. compare_action_priority a b < 0) ys" for ys
    using that sorted sorted_wrt_goes_before_unique [of ys "filter_actions st'"]
    by (simp add: compare_action_priority_less)
  have perm1: "mset (filter_actions st') = mset (filter_actions st1)"
    by (simp add: acts mset_qsort)
  have perm: "\<not> tracing_paths \<longrightarrow> mset (filter_actions st') = mset (filter_actions st)"
    using same perm1 by auto
  have post: "\<exists>st1. (if tracing_paths then inject_path_tracing Q st else Some st) = Some st1
          \<and> mset (filter_actions st') = mset (filter_actions st1)"
    using st1 perm1 by blast
  have "mset (map ?key (filter_actions st')) = mset (map ?key (filter_actions st1))"
    using perm1 by (metis mset_map)
  moreover have "map ?key (filter_actions st1)
        = map ?key (filter_actions st)
            @ (if tracing_paths
                  \<and> list_all (\<lambda>a. action_type a
                       \<noteq> FILTER_ACTION_TYPE ''trace'' 0 (QUAL_TRACE Q) parse_null None)
                     (filter_actions st)
               then [(nfilter_actions st,
                      FILTER_ACTION_TYPE ''trace'' 0 (QUAL_TRACE Q) parse_null None)]
               else [])"
  proof (cases tracing_paths)
    case True
    with st1 have "inject_path_tracing Q st = Some st1" by simp
    from inject_path_tracing_id_type [OF this] True show ?thesis by simp
  next
    case False
    with same show ?thesis by simp
  qed
  ultimately have keys: "mset (map ?key (filter_actions st'))
        = mset (map ?key (filter_actions st)
            @ (if tracing_paths
                  \<and> list_all (\<lambda>a. action_type a
                       \<noteq> FILTER_ACTION_TYPE ''trace'' 0 (QUAL_TRACE Q) parse_null None)
                     (filter_actions st)
               then [(nfilter_actions st,
                      FILTER_ACTION_TYPE ''trace'' 0 (QUAL_TRACE Q) parse_null None)]
               else []))"
    by simp
  have loop: "\<forall>H tcp k. filter_syscall H tcp st' =
          fold (\<lambda>action t. run_filter_action H t action) (drop k (filter_actions st'))
            (fold (\<lambda>action t. run_filter_action H t action) (take k (filter_actions st'))
               (tcp\<lparr>tcb.qual_flg := tcb.qual_flg tcp OR default_flags st'\<rparr>))"
    using filter_syscall_split by blast
  show ?thesis
    using fin order unique perm post keys loop compare_action_priority_nonzero by blast
qed

theorem filtering_parsing_finish_order_witness:
  "ids_assigned ex_filter_state
   \<and> map_option (\<lambda>st'. map action_id (filter_actions st'))
        (filtering_parsing_finish ex_qual_flags False ex_filter_state) = Some [1, 3, 2, 0]
   \<and> map_option (\<lambda>st'. map (\<lambda>a. priority (action_type a)) (filter_actions st'))
        (filtering_parsing_finish ex_qual_flags False ex_filter_state) = Some [0, 1, 1, 2]
   \<and> map_option (\<lambda>st'. map action_id (filter_actions st'))
        (filtering_parsing_finish ex_qual_flags True ex_filter_state) = Some [1, 3, 2, 0]
   \<and> map_option (\<lambda>st'. map nfilters (filter_actions st'))
        (filtering_parsing_finish ex_qual_flags True ex_filter_state) = Some [3, 1, 1, 1]
   \<and> map_option (\<lambda>st'. tcb.qual_flg (filter_syscall ex_action_hooks
          \<lparr>sen = SEN_other 0, u_arg = [], qual_flg = 0\<rparr> st'))
        (filtering_parsing_finish ex_qual_flags True ex_filter_state) = Some 41320"
proof -
  have ids: "ids_assigned ex_filter_state"
    by (simp add: ids_assigned_def ex_filter_state_def nfilter_actions_def upt_rec)
  have ev: "map_option (\<lambda>st'. map action_id (filter_actions st'))
        (filtering_parsing_finish ex_qual_flags False ex_filter_state) = Some [1, 3, 2, 0]"
    by (simp add: filtering_parsing_finish_def ex_filter_state_def nfilter_actions_def
        qsort_def compare_action_priority_def FILTER_ACTION_TYPE_def Let_def)
  have ev2: "map_option (\<lambda>st'. map (\<lambda>a. priority (action_type a)) (filter_actions st'))
        (filtering_parsing_finish ex_qual_flags False ex_filter_state) = Some [0, 1, 1, 2]"
    by (simp add: filtering_parsing_finish_def ex_filter_state_def nfilter_actions_def
        qsort_def compare_action_priority_def FILTER_ACTION_TYPE_def Let_def)
  have ev3: "map_option (\<lambda>st'. map action_id (filter_actions st'))
        (filtering_parsing_finish ex_qual_flags True ex_filter_state) = Some [1, 3, 2, 0]"
    by code_simp
  have ev4: "map_option (\<lambda>st'. map nfilters (filter_actions st'))
        (filtering_parsing_finish ex_qual_flags True ex_filter_state) = Some [3, 1, 1, 1]"
    by code_simp
  have ev5: "map_option (\<lambda>st'. tcb.qual_flg (filter_syscall ex_action_hooks
          \<lparr>sen = SEN_other 0, u_arg = [], qual_flg = 0\<rparr> st'))
        (filtering_parsing_finish ex_qual_flags True ex_filter_state) = Some 41320"
    by code_simp
  show ?thesis
    using filtering_parsing_finish_order [OF ids, of ex_qual_flags False]
      filtering_parsing_finish_order [OF ids, of ex_qual_flags True]
    by (simp only: ids ev ev2 ev3 ev4 ev5 simp_thms)
qed

end
